theory Spec2Isabelle
  imports Complex_Main "HOL-Library.List_Lexorder" "HOL-Library.Char_ord"
begin

section \<open>Go values\<close>

text \<open>
  Go strings are byte sequences compared bytewise and lexicographically, a proper prefix
  being smaller: this is the order of \<open>char list\<close> given by the lexicographic order on
  lists over the byte order on characters.

  A Go slice is either \<open>nil\<close> or a (possibly empty) sequence. Where the source builds a
  slice that is returned to a caller, the model keeps the difference.
\<close>

datatype 'a slice = nil_slice | Slice "'a list"

fun elems :: "'a slice \<Rightarrow> 'a list" where
  "elems nil_slice = []"
| "elems (Slice xs) = xs"

fun append_slice :: "'a slice \<Rightarrow> 'a \<Rightarrow> 'a slice" where
  "append_slice nil_slice x = Slice [x]"
| "append_slice (Slice xs) x = Slice (xs @ [x])"

section \<open>Insights aggregator (package analysis)\<close>

text \<open>
  \<open>float64\<close> metric values are modelled as reals: the metric maps hold finite numbers,
  on which Go's \<open>==\<close> and \<open>>\<close> are the comparisons of the values (no NaN).
  A Go \<open>map[string]float64\<close> is an association list with distinct keys, listed in the
  order in which \<open>range\<close> happens to visit the entries; that order is arbitrary in Go.
\<close>

record InsightItem =
  ID :: string
  Value :: real

text \<open>The local struct \<open>kv\<close> of \<open>getTopItems\<close>.\<close>

record kv =
  Key :: string
  Value_kv :: real

text \<open>
  \<open>GraphStats\<close> and its accessors \<open>PageRank()\<close>, \<open>Betweenness()\<close>,
  \<open>CriticalPathScore()\<close>, \<open>Eigenvector()\<close>, \<open>Hubs()\<close>, \<open>Authorities()\<close> and
  \<open>Cycles()\<close> are declared in another file of the package. The accessors return copies
  of the stored metric maps; they are modelled as the fields of a record.
\<close>

record GraphStats =
  PageRank :: "(string \<times> real) list"
  Betweenness :: "(string \<times> real) list"
  CriticalPathScore :: "(string \<times> real) list"
  Eigenvector :: "(string \<times> real) list"
  Hubs_of :: "(string \<times> real) list"
  Authorities_of :: "(string \<times> real) list"
  Cycles_of :: "string list list"
  Density :: real

record Insights =
  Bottlenecks :: "InsightItem slice"
  Keystones :: "InsightItem slice"
  Influencers :: "InsightItem slice"
  Hubs :: "InsightItem slice"
  Authorities :: "InsightItem slice"
  Orphans :: "string slice"
  Cycles :: "string list list"
  ClusterDensity :: real
  Stats :: GraphStats

text \<open>The comparison closure handed to \<open>sort.Slice\<close>.\<close>

definition kv_less :: "kv \<Rightarrow> kv \<Rightarrow> bool" where
  "kv_less a b =
     (if Value_kv a = Value_kv b then Key a < Key b else Value_kv a > Value_kv b)"

text \<open>
  \<open>sort.Slice\<close> is a library routine; it is modelled as insertion sort by the given
  \<open>less\<close>. It is not stable, but on a slice whose elements are pairwise comparable by a
  strict linear order every correct sort returns the same slice (lemma
  \<open>sort_Slice_unique\<close> below).
\<close>

fun insert_by :: "('a \<Rightarrow> 'a \<Rightarrow> bool) \<Rightarrow> 'a \<Rightarrow> 'a list \<Rightarrow> 'a list" where
  "insert_by lt x [] = [x]"
| "insert_by lt x (y # ys) =
     (if lt x y then x # y # ys else y # insert_by lt x ys)"

fun sort_Slice :: "('a \<Rightarrow> 'a \<Rightarrow> bool) \<Rightarrow> 'a list \<Rightarrow> 'a list" where
  "sort_Slice lt [] = []"
| "sort_Slice lt (x # xs) = insert_by lt x (sort_Slice lt xs)"

text \<open>The loop \<open>for k, v := range m { ss = append(ss, kv{k, v}) }\<close>.\<close>

fun range_kv :: "(string \<times> real) list \<Rightarrow> kv list \<Rightarrow> kv list" where
  "range_kv [] ss = ss"
| "range_kv ((k, v) # m) ss = range_kv m (ss @ [\<lparr>Key = k, Value_kv = v\<rparr>])"

text \<open>The loop \<open>for i := 0; i < len(ss) && i < limit; i++\<close> that fills \<open>result\<close>.\<close>

function top_loop :: "kv list \<Rightarrow> int \<Rightarrow> nat \<Rightarrow> InsightItem slice \<Rightarrow> InsightItem slice" where
  "top_loop ss limit i result =
     (if i < length ss \<and> int i < limit
      then top_loop ss limit (Suc i)
             (append_slice result \<lparr>ID = Key (ss ! i), Value = Value_kv (ss ! i)\<rparr>)
      else result)"
  by pat_completeness auto
termination
  by (relation "measure (\<lambda>(ss, limit, i, result). length ss - i)") auto

declare top_loop.simps [simp del]

definition getTopItems :: "(string \<times> real) list \<Rightarrow> int \<Rightarrow> InsightItem slice" where
  "getTopItems m limit =
     (let ss = range_kv m [];
          ss = sort_Slice kv_less ss
      in top_loop ss limit 0 (Slice []))"

definition GenerateInsights :: "GraphStats \<Rightarrow> int \<Rightarrow> Insights" where
  "GenerateInsights s limit =
     (let pageRank = PageRank s;
          betweenness = Betweenness s;
          criticalPath = CriticalPathScore s;
          eigenvector = Eigenvector s;
          hubs = Hubs_of s;
          authorities = Authorities_of s;
          cycles = Cycles_of s;
          limit = (if limit \<le> 0 then int (length pageRank) else limit)
      in \<lparr>Bottlenecks = getTopItems betweenness limit,
          Keystones = getTopItems criticalPath limit,
          Influencers = getTopItems eigenvector limit,
          Hubs = getTopItems hubs limit,
          Authorities = getTopItems authorities limit,
          Orphans = nil_slice,
          Cycles = cycles,
          ClusterDensity = Density s,
          Stats = s\<rparr>)"

subsection \<open>Vocabulary of the statements about the aggregator\<close>

text \<open>
  \<open>mk_kv\<close> and \<open>item_of\<close> name the two conversions done by the loops of
  \<open>getTopItems\<close>. \<open>ranks_before\<close> is the order the specification asks for: value
  descending, ties by identifier ascending. \<open>snapshot_maps\<close> is the invariant of a
  graph snapshot: every metric map has one entry per node, so all maps have the key set
  of the PageRank map (the source relies on it: "maps all share same key set").
  \<open>same_map\<close> relates two iteration orders of one Go map.
\<close>

definition mk_kv :: "string \<times> real \<Rightarrow> kv" where
  "mk_kv p = \<lparr>Key = fst p, Value_kv = snd p\<rparr>"

definition item_of :: "kv \<Rightarrow> InsightItem" where
  "item_of e = \<lparr>ID = Key e, Value = Value_kv e\<rparr>"

definition ranks_before :: "InsightItem \<Rightarrow> InsightItem \<Rightarrow> bool" where
  "ranks_before a b \<longleftrightarrow> Value a > Value b \<or> (Value a = Value b \<and> ID a < ID b)"

definition ranked :: "InsightItem list \<Rightarrow> bool" where
  "ranked r \<longleftrightarrow> (\<forall>i j. i < j \<and> j < length r \<longrightarrow> ranks_before (r ! i) (r ! j))"

definition entry_item :: "string \<times> real \<Rightarrow> InsightItem" where
  "entry_item p = \<lparr>ID = fst p, Value = snd p\<rparr>"

definition metric_maps :: "GraphStats \<Rightarrow> (string \<times> real) list list" where
  "metric_maps s = [Betweenness s, CriticalPathScore s, Eigenvector s, Hubs_of s, Authorities_of s]"

definition ranked_lists :: "Insights \<Rightarrow> InsightItem slice list" where
  "ranked_lists I = [Bottlenecks I, Keystones I, Influencers I, Hubs I, Authorities I]"

definition snapshot_maps :: "GraphStats \<Rightarrow> bool" where
  "snapshot_maps s \<longleftrightarrow>
     distinct (map fst (PageRank s)) \<and>
     (\<forall>m \<in> set (metric_maps s).
        distinct (map fst m) \<and> set (map fst m) = set (map fst (PageRank s)))"

definition same_map :: "(string \<times> real) list \<Rightarrow> (string \<times> real) list \<Rightarrow> bool" where
  "same_map m1 m2 \<longleftrightarrow> distinct (map fst m1) \<and> distinct (map fst m2) \<and> set m1 = set m2"

definition same_stats :: "GraphStats \<Rightarrow> GraphStats \<Rightarrow> bool" where
  "same_stats s1 s2 \<longleftrightarrow>
     same_map (PageRank s1) (PageRank s2) \<and>
     list_all2 same_map (metric_maps s1) (metric_maps s2) \<and>
     Cycles_of s1 = Cycles_of s2 \<and> Density s1 = Density s2"

definition empty_stats :: "GraphStats \<Rightarrow> bool" where
  "empty_stats s \<longleftrightarrow> PageRank s = [] \<and> (\<forall>m \<in> set (metric_maps s). m = [])"

definition example_stats :: GraphStats where
  "example_stats =
     \<lparr>PageRank = [(''bv-1'', 1 / 2), (''bv-2'', 1 / 2)],
      Betweenness = [(''bv-2'', 0), (''bv-1'', 0)],
      CriticalPathScore = [(''bv-1'', 0), (''bv-2'', 1)],
      Eigenvector = [(''bv-2'', 1), (''bv-1'', 1 / 2)],
      Hubs_of = [(''bv-1'', 0), (''bv-2'', 1)],
      Authorities_of = [(''bv-1'', 1), (''bv-2'', 0)],
      Cycles_of = [],
      Density = 1 / 2\<rparr>"

definition example_stats_reordered :: GraphStats where
  "example_stats_reordered =
     \<lparr>PageRank = [(''bv-2'', 1 / 2), (''bv-1'', 1 / 2)],
      Betweenness = [(''bv-1'', 0), (''bv-2'', 0)],
      CriticalPathScore = [(''bv-2'', 1), (''bv-1'', 0)],
      Eigenvector = [(''bv-1'', 1 / 2), (''bv-2'', 1)],
      Hubs_of = [(''bv-2'', 1), (''bv-1'', 0)],
      Authorities_of = [(''bv-2'', 0), (''bv-1'', 1)],
      Cycles_of = [],
      Density = 1 / 2\<rparr>"

definition empty_example_stats :: GraphStats where
  "empty_example_stats =
     \<lparr>PageRank = [], Betweenness = [], CriticalPathScore = [], Eigenvector = [],
      Hubs_of = [], Authorities_of = [], Cycles_of = [], Density = 0\<rparr>"

section \<open>Graph view (package ui)\<close>

subsection \<open>Issues and their dependencies (package model)\<close>

text \<open>
  Of the types of the package \<open>model\<close> the graph view reads the fields below.
  \<open>Status\<close>, \<open>IssueType\<close> and \<open>DependencyType\<close> are string types.
  The identifier field of an issue is named \<open>ID_issue\<close> here, \<open>ID\<close> being the field of
  \<open>InsightItem\<close>.
\<close>

type_synonym Status = string
type_synonym IssueType = string
type_synonym DependencyType = string

record Dependency =
  DependsOnID :: string
  Type :: DependencyType

record Issue =
  ID_issue :: string
  Title :: string
  Status :: Status
  IssueType :: IssueType
  Dependencies :: "Dependency list"

text \<open>
  Modelled from the spec: the constants \<open>model.DepBlocks\<close> and \<open>model.DepParentChild\<close>,
  which the package \<open>model\<close> declares. The specification names the structural kinds
  "blocks" and "parent-child".
\<close>

definition DepBlocks :: DependencyType where
  "DepBlocks = ''blocks''"

definition DepParentChild :: DependencyType where
  "DepParentChild = ''parent-child''"

subsection \<open>The graph model\<close>

text \<open>
  The fields of \<open>graphNode\<close> and \<open>graphEdge\<close> carry the suffixes \<open>_n\<close> and \<open>_e\<close> (the
  source's \<open>id\<close>, \<open>x\<close>, \<open>y\<close>, \<open>from\<close>, \<open>to\<close> are not available as names). Of
  \<open>GraphModel\<close> the fields \<open>width\<close>, \<open>height\<close>, \<open>theme\<close> and \<open>canvas\<close>, which only
  rendering touches, are left out. \<open>issueMap\<close> maps an identifier to the issue that the
  stored pointer refers to. Indices are Go \<open>int\<close>s, modelled as integers.
\<close>

record graphNode =
  id_n :: string
  title_n :: string
  x_n :: int
  y_n :: int
  width_n :: int
  height_n :: int
  layer_n :: int
  status_n :: Status
  itype_n :: IssueType

record graphEdge =
  from_e :: int
  to_e :: int
  depType :: string

record GraphModel =
  issues :: "Issue list"
  issueMap :: "string \<rightharpoonup> Issue"
  insights :: "Insights option"
  selectedNode :: int
  scrollX :: int
  scrollY :: int
  nodes :: "graphNode list"
  edges :: "graphEdge list"
  layers :: "int list list"

text \<open>
  What \<open>buildGraph\<close> takes from its environment: the helper \<open>truncateRunesHelper\<close>,
  which another file of the package defines, and the orders in which the two \<open>range\<close>
  loops over the maps \<open>allIDs\<close> and \<open>layers\<close> visit the keys, which Go leaves open.
\<close>

record runtime =
  truncateRunesHelper :: "string \<Rightarrow> int \<Rightarrow> string \<Rightarrow> string"
  range_allIDs :: "string list"
  range_layers :: "string list"

definition ellipsis :: string where
  "ellipsis = [CHR 0xE2, CHR 0x80, CHR 0xA6]"

definition nodeWidth :: int where "nodeWidth = 20"
definition nodeHeight :: int where "nodeHeight = 4"
definition horizontalGap :: int where "horizontalGap = 4"
definition verticalGap :: int where "verticalGap = 2"

text \<open>The loop of \<open>NewGraphModel\<close> and \<open>SetIssues\<close> that fills \<open>issueMap\<close>.\<close>

fun fill_issueMap :: "Issue list \<Rightarrow> (string \<rightharpoonup> Issue) \<Rightarrow> (string \<rightharpoonup> Issue)" where
  "fill_issueMap [] m = m"
| "fill_issueMap (issue # rest) m = fill_issueMap rest (m(ID_issue issue \<mapsto> issue))"

subsection \<open>buildGraph: adjacency\<close>

text \<open>
  \<open>dependsOn\<close> is a \<open>map[string][]string\<close>; a missing key reads as the nil slice, so it
  is a total function with default \<open>[]\<close>. \<open>allIDs\<close> is a \<open>map[string]bool\<close> used as a set.
\<close>

fun adjacency_deps ::
  "string \<Rightarrow> Dependency list \<Rightarrow> (string \<Rightarrow> string list) \<Rightarrow> (string \<Rightarrow> string list)" where
  "adjacency_deps ident [] dependsOn = dependsOn"
| "adjacency_deps ident (dep # deps) dependsOn =
     adjacency_deps ident deps
       (if Type dep = DepBlocks \<or> Type dep = DepParentChild
        then dependsOn(ident := dependsOn ident @ [DependsOnID dep])
        else dependsOn)"

fun adjacency ::
  "Issue list \<Rightarrow> (string \<Rightarrow> string list) \<times> string set \<Rightarrow> (string \<Rightarrow> string list) \<times> string set" where
  "adjacency [] (dependsOn, allIDs) = (dependsOn, allIDs)"
| "adjacency (issue # rest) (dependsOn, allIDs) =
     adjacency rest
       (adjacency_deps (ID_issue issue) (Dependencies issue) dependsOn,
        insert (ID_issue issue) allIDs)"

subsection \<open>buildGraph: layers\<close>

text \<open>
  The closure \<open>computeLayer\<close> reads \<open>dependsOn\<close> and \<open>g.issueMap\<close> and updates the maps
  \<open>layers\<close> and \<open>visited\<close>; the model passes both maps in and out as a pair. The
  recursion carries fuel: \<open>None\<close> means that the fuel ran out. \<open>parents_loop\<close> is the loop
  over \<open>dependsOn[id]\<close>, with the recursive call as its first argument.
\<close>

type_synonym layer_state = "(string \<rightharpoonup> int) \<times> string set"

fun parents_loop ::
  "(string \<Rightarrow> layer_state \<Rightarrow> (int \<times> layer_state) option) \<Rightarrow> (string \<rightharpoonup> Issue) \<Rightarrow>
   string list \<Rightarrow> int \<Rightarrow> layer_state \<Rightarrow> (int \<times> layer_state) option" where
  "parents_loop call im [] maxParent st = Some (maxParent, st)"
| "parents_loop call im (parent # rest) maxParent st =
     (if im parent \<noteq> None
      then (case call parent st of
              None \<Rightarrow> None
            | Some (pl, st') \<Rightarrow>
                parents_loop call im rest (if pl > maxParent then pl else maxParent) st')
      else parents_loop call im rest maxParent st)"

primrec computeLayer ::
  "nat \<Rightarrow> (string \<Rightarrow> string list) \<Rightarrow> (string \<rightharpoonup> Issue) \<Rightarrow>
   string \<Rightarrow> layer_state \<Rightarrow> (int \<times> layer_state) option" where
  "computeLayer 0 dependsOn im ident st = None"
| "computeLayer (Suc fuel) dependsOn im ident st =
     (case fst st ident of
        Some layer \<Rightarrow> Some (layer, st)
      | None \<Rightarrow>
          if ident \<in> snd st then Some (0, st)
          else (case parents_loop (computeLayer fuel dependsOn im) im (dependsOn ident) (- 1)
                       (fst st, insert ident (snd st)) of
                  None \<Rightarrow> None
                | Some (maxParent, st') \<Rightarrow>
                    Some (maxParent + 1, ((fst st')(ident \<mapsto> maxParent + 1), snd st'))))"

text \<open>The loop \<open>for id := range allIDs { computeLayer(id, make(map[string]bool)) }\<close>.\<close>

fun compute_all ::
  "nat \<Rightarrow> (string \<Rightarrow> string list) \<Rightarrow> (string \<rightharpoonup> Issue) \<Rightarrow> string list \<Rightarrow>
   (string \<rightharpoonup> int) \<Rightarrow> (string \<rightharpoonup> int) option" where
  "compute_all fuel dependsOn im [] layersMap = Some layersMap"
| "compute_all fuel dependsOn im (ident # rest) layersMap =
     (case computeLayer fuel dependsOn im ident (layersMap, {}) of
        None \<Rightarrow> None
      | Some (l, st') \<Rightarrow> compute_all fuel dependsOn im rest (fst st'))"

text \<open>
  The layer computation of \<open>buildGraph\<close> on a list of issues: fuel for one more call
  than there are issues is enough on every input (lemma \<open>compute_layers_total\<close>).
\<close>

definition compute_layers :: "runtime \<Rightarrow> Issue list \<Rightarrow> (string \<rightharpoonup> Issue) \<Rightarrow> (string \<rightharpoonup> int) option" where
  "compute_layers rt iss im =
     compute_all (Suc (length iss)) (fst (adjacency iss (\<lambda>k. [], {}))) im (range_allIDs rt) Map.empty"

subsection \<open>buildGraph: grouping, nodes and edges\<close>

text \<open>The loop \<open>for id, layer := range layers\<close> that fills \<open>layerGroups\<close> and \<open>maxLayer\<close>.\<close>

fun group_layers ::
  "string list \<Rightarrow> (string \<rightharpoonup> int) \<Rightarrow> (int \<Rightarrow> string list) \<times> int \<Rightarrow> (int \<Rightarrow> string list) \<times> int" where
  "group_layers [] layersMap (layerGroups, maxLayer) = (layerGroups, maxLayer)"
| "group_layers (ident # rest) layersMap (layerGroups, maxLayer) =
     (case layersMap ident of
        None \<Rightarrow> group_layers rest layersMap (layerGroups, maxLayer)
      | Some layer \<Rightarrow>
          group_layers rest layersMap
            (layerGroups(layer := layerGroups layer @ [ident]),
             if layer > maxLayer then layer else maxLayer))"

text \<open>\<open>sort.Strings\<close>: ascending by the order of strings.\<close>

definition sort_Strings :: "string list \<Rightarrow> string list" where
  "sort_Strings xs = sort_Slice (<) xs"

text \<open>The inner loop \<open>for i, id := range ids\<close> that creates the nodes of one layer.\<close>

fun place_nodes ::
  "(string \<Rightarrow> int \<Rightarrow> string \<Rightarrow> string) \<Rightarrow> (string \<rightharpoonup> Issue) \<Rightarrow> int \<Rightarrow> string list \<Rightarrow> nat \<Rightarrow>
   graphNode list \<times> (string \<rightharpoonup> int) \<times> int list \<Rightarrow> graphNode list \<times> (string \<rightharpoonup> int) \<times> int list" where
  "place_nodes trunc im layer [] i st = st"
| "place_nodes trunc im layer (ident # ids) i (ns, nodeIndexMap, row) =
     (case im ident of
        None \<Rightarrow> place_nodes trunc im layer ids (Suc i) (ns, nodeIndexMap, row)
      | Some issue \<Rightarrow>
          (let x = int i * (nodeWidth + horizontalGap);
               y = layer * (nodeHeight + verticalGap);
               title = trunc (Title issue) (nodeWidth - 4) ellipsis;
               node = \<lparr>id_n = ident, title_n = title, x_n = x, y_n = y,
                       width_n = nodeWidth, height_n = nodeHeight, layer_n = layer,
                       status_n = Status issue, itype_n = IssueType issue\<rparr>;
               nodeIdx = int (length ns)
           in place_nodes trunc im layer ids (Suc i)
                (ns @ [node], nodeIndexMap(ident \<mapsto> nodeIdx), row[i := nodeIdx])))"

text \<open>
  The loop \<open>for layer := 0; layer <= maxLayer; layer++\<close>, over the list of its values;
  \<open>rows\<close> is \<open>g.layers\<close>. The two indexed writes are in range in the source as in the
  model: \<open>i\<close> runs over the indices of \<open>ids\<close> and the row has \<open>len(ids)\<close> cells,
  \<open>layer\<close> runs from 0 to \<open>maxLayer\<close> and \<open>g.layers\<close> has \<open>maxLayer + 1\<close> rows.
\<close>

fun place_layers ::
  "(string \<Rightarrow> int \<Rightarrow> string \<Rightarrow> string) \<Rightarrow> (string \<rightharpoonup> Issue) \<Rightarrow> (int \<Rightarrow> string list) \<Rightarrow> int list \<Rightarrow>
   graphNode list \<times> (string \<rightharpoonup> int) \<times> int list list \<Rightarrow>
   graphNode list \<times> (string \<rightharpoonup> int) \<times> int list list" where
  "place_layers trunc im layerGroups [] st = st"
| "place_layers trunc im layerGroups (layer # rest) (ns, nodeIndexMap, rows) =
     (let ids = layerGroups layer;
          (ns', nodeIndexMap', row) =
             place_nodes trunc im layer ids 0 (ns, nodeIndexMap, replicate (length ids) 0)
      in place_layers trunc im layerGroups rest (ns', nodeIndexMap', rows[nat layer := row]))"

text \<open>The two loops that create the edges.\<close>

fun dep_edges :: "(string \<rightharpoonup> int) \<Rightarrow> int \<Rightarrow> Dependency list \<Rightarrow> graphEdge list \<Rightarrow> graphEdge list" where
  "dep_edges nodeIndexMap dependentIdx [] es = es"
| "dep_edges nodeIndexMap dependentIdx (dep # deps) es =
     (if Type dep \<noteq> DepBlocks \<and> Type dep \<noteq> DepParentChild
      then dep_edges nodeIndexMap dependentIdx deps es
      else (case nodeIndexMap (DependsOnID dep) of
              None \<Rightarrow> dep_edges nodeIndexMap dependentIdx deps es
            | Some dependencyIdx \<Rightarrow>
                dep_edges nodeIndexMap dependentIdx deps
                  (es @ [\<lparr>from_e = dependencyIdx, to_e = dependentIdx, depType = Type dep\<rparr>])))"

fun issue_edges :: "(string \<rightharpoonup> int) \<Rightarrow> Issue list \<Rightarrow> graphEdge list \<Rightarrow> graphEdge list" where
  "issue_edges nodeIndexMap [] es = es"
| "issue_edges nodeIndexMap (issue # rest) es =
     (case nodeIndexMap (ID_issue issue) of
        None \<Rightarrow> issue_edges nodeIndexMap rest es
      | Some dependentIdx \<Rightarrow>
          issue_edges nodeIndexMap rest
            (dep_edges nodeIndexMap dependentIdx (Dependencies issue) es))"

text \<open>
  \<open>buildGraph\<close>. The result is \<open>None\<close> only if the layer computation ran out of fuel,
  which does not happen (lemma \<open>buildGraph_total\<close>).
\<close>

definition buildGraph :: "runtime \<Rightarrow> GraphModel \<Rightarrow> GraphModel option" where
  "buildGraph rt g0 =
     (let g = g0\<lparr>nodes := [], edges := [], layers := []\<rparr> in
      if length (issues g) = 0 then Some g
      else
        (case compute_layers rt (issues g) (issueMap g) of
           None \<Rightarrow> None
         | Some layersMap \<Rightarrow>
             (let (layerGroups, maxLayer) = group_layers (range_layers rt) layersMap (\<lambda>k. [], 0);
                  layerGroups = (\<lambda>layer. sort_Strings (layerGroups layer));
                  (ns, nodeIndexMap, rows) =
                     place_layers (truncateRunesHelper rt) (issueMap g) layerGroups [0..maxLayer]
                       ([], Map.empty, replicate (nat (maxLayer + 1)) []);
                  es = issue_edges nodeIndexMap (issues g) [];
                  g = g\<lparr>nodes := ns, edges := es, layers := rows\<rparr>
              in Some (if selectedNode g \<ge> int (length (nodes g))
                       then g\<lparr>selectedNode := 0\<rparr> else g))))"

definition NewGraphModel :: "runtime \<Rightarrow> Issue list \<Rightarrow> Insights option \<Rightarrow> GraphModel option" where
  "NewGraphModel rt iss ins =
     buildGraph rt
       \<lparr>issues = iss, issueMap = fill_issueMap iss Map.empty, insights = ins,
        selectedNode = 0, scrollX = 0, scrollY = 0, nodes = [], edges = [], layers = []\<rparr>"

definition SetIssues :: "runtime \<Rightarrow> Issue list \<Rightarrow> Insights option \<Rightarrow> GraphModel \<Rightarrow> GraphModel option" where
  "SetIssues rt iss ins g =
     buildGraph rt (g\<lparr>issues := iss, issueMap := fill_issueMap iss Map.empty, insights := ins\<rparr>)"

subsection \<open>Navigation\<close>

text \<open>
  Indexing a slice out of range panics in Go; \<open>index_nodes\<close> is the checked read. The two
  scans are the loops \<open>for i := start; i >= 0; i--\<close> and
  \<open>for i := start; i < len(g.nodes); i++\<close> that return the first index whose node lies in
  the wanted layer.
\<close>

datatype panic = IndexOutOfRange

definition index_nodes :: "graphNode list \<Rightarrow> int \<Rightarrow> panic + graphNode" where
  "index_nodes ns i =
     (if 0 \<le> i \<and> i < int (length ns) then Inr (ns ! nat i) else Inl IndexOutOfRange)"

function scan_down :: "graphNode list \<Rightarrow> int \<Rightarrow> int \<Rightarrow> panic + int option" where
  "scan_down ns wanted i =
     (if i \<ge> 0
      then (case index_nodes ns i of
              Inl e \<Rightarrow> Inl e
            | Inr n \<Rightarrow> if layer_n n = wanted then Inr (Some i) else scan_down ns wanted (i - 1))
      else Inr None)"
  by pat_completeness auto
termination
  by (relation "measure (\<lambda>(ns, wanted, i). nat (i + 1))") auto

function scan_up :: "graphNode list \<Rightarrow> int \<Rightarrow> int \<Rightarrow> panic + int option" where
  "scan_up ns wanted i =
     (if i < int (length ns)
      then (case index_nodes ns i of
              Inl e \<Rightarrow> Inl e
            | Inr n \<Rightarrow> if layer_n n = wanted then Inr (Some i) else scan_up ns wanted (i + 1))
      else Inr None)"
  by pat_completeness auto
termination
  by (relation "measure (\<lambda>(ns, wanted, i). nat (int (length ns) - i))") auto

declare scan_down.simps [simp del] scan_up.simps [simp del]

definition MoveUp :: "GraphModel \<Rightarrow> panic + GraphModel" where
  "MoveUp g =
     (if length (nodes g) = 0 then Inr g
      else (case index_nodes (nodes g) (selectedNode g) of
              Inl e \<Rightarrow> Inl e
            | Inr current \<Rightarrow>
                (let currentLayer = layer_n current in
                 case scan_down (nodes g) currentLayer (selectedNode g - 1) of
                   Inl e \<Rightarrow> Inl e
                 | Inr (Some i) \<Rightarrow> Inr (g\<lparr>selectedNode := i\<rparr>)
                 | Inr None \<Rightarrow>
                     if currentLayer > 0
                     then (case scan_down (nodes g) (currentLayer - 1) (int (length (nodes g)) - 1) of
                             Inl e \<Rightarrow> Inl e
                           | Inr (Some i) \<Rightarrow> Inr (g\<lparr>selectedNode := i\<rparr>)
                           | Inr None \<Rightarrow> Inr g)
                     else Inr g)))"

definition MoveDown :: "GraphModel \<Rightarrow> panic + GraphModel" where
  "MoveDown g =
     (if length (nodes g) = 0 then Inr g
      else (case index_nodes (nodes g) (selectedNode g) of
              Inl e \<Rightarrow> Inl e
            | Inr current \<Rightarrow>
                (let currentLayer = layer_n current in
                 case scan_up (nodes g) currentLayer (selectedNode g + 1) of
                   Inl e \<Rightarrow> Inl e
                 | Inr (Some i) \<Rightarrow> Inr (g\<lparr>selectedNode := i\<rparr>)
                 | Inr None \<Rightarrow>
                     (case scan_up (nodes g) (currentLayer + 1) 0 of
                        Inl e \<Rightarrow> Inl e
                      | Inr (Some i) \<Rightarrow> Inr (g\<lparr>selectedNode := i\<rparr>)
                      | Inr None \<Rightarrow> Inr g))))"

definition MoveLeft :: "GraphModel \<Rightarrow> GraphModel" where
  "MoveLeft g = (if selectedNode g > 0 then g\<lparr>selectedNode := selectedNode g - 1\<rparr> else g)"

definition MoveRight :: "GraphModel \<Rightarrow> GraphModel" where
  "MoveRight g =
     (if selectedNode g < int (length (nodes g)) - 1
      then g\<lparr>selectedNode := selectedNode g + 1\<rparr> else g)"

definition PageUp :: "GraphModel \<Rightarrow> GraphModel" where
  "PageUp g = (let g = g\<lparr>scrollY := scrollY g - 10\<rparr> in if scrollY g < 0 then g\<lparr>scrollY := 0\<rparr> else g)"

definition PageDown :: "GraphModel \<Rightarrow> GraphModel" where
  "PageDown g = g\<lparr>scrollY := scrollY g + 10\<rparr>"

definition ScrollLeft :: "GraphModel \<Rightarrow> GraphModel" where
  "ScrollLeft g = (let g = g\<lparr>scrollX := scrollX g - 10\<rparr> in if scrollX g < 0 then g\<lparr>scrollX := 0\<rparr> else g)"

definition ScrollRight :: "GraphModel \<Rightarrow> GraphModel" where
  "ScrollRight g = g\<lparr>scrollX := scrollX g + 10\<rparr>"

text \<open>\<open>SelectedIssue\<close> returns a pointer: \<open>None\<close> is \<open>nil\<close>.\<close>

definition SelectedIssue :: "GraphModel \<Rightarrow> panic + Issue option" where
  "SelectedIssue g =
     (if length (nodes g) = 0 \<or> selectedNode g \<ge> int (length (nodes g)) then Inr None
      else (case index_nodes (nodes g) (selectedNode g) of
              Inl e \<Rightarrow> Inl e
            | Inr n \<Rightarrow> Inr (issueMap g (id_n n))))"

definition TotalCount :: "GraphModel \<Rightarrow> int" where
  "TotalCount g = int (length (nodes g))"

subsection \<open>Vocabulary of the statements about the graph view\<close>

text \<open>
  \<open>structural\<close> is the test of the kind of a dependency that \<open>buildGraph\<close> makes
  twice. \<open>dependsOn_of\<close>, \<open>issue_ids\<close> and \<open>issueMap_of\<close> name the adjacency map, the
  key set of \<open>allIDs\<close> and the \<open>issueMap\<close> that the code builds from a list of issues.
\<close>

definition structural :: "Dependency \<Rightarrow> bool" where
  "structural dep \<longleftrightarrow> Type dep = DepBlocks \<or> Type dep = DepParentChild"

definition dependsOn_of :: "Issue list \<Rightarrow> string \<Rightarrow> string list" where
  "dependsOn_of iss = fst (adjacency iss (\<lambda>k. [], {}))"

definition issue_ids :: "Issue list \<Rightarrow> string set" where
  "issue_ids iss = ID_issue ` set iss"

definition issueMap_of :: "Issue list \<Rightarrow> (string \<rightharpoonup> Issue)" where
  "issueMap_of iss = fill_issueMap iss Map.empty"

text \<open>
  The edges that the layer computation follows: \<open>(p, i)\<close> when \<open>i\<close> depends on \<open>p\<close>
  and \<open>p\<close> is an issue. \<open>in_progress\<close> are the ids visited and not yet given a layer.
\<close>

definition edge_rel :: "(string \<Rightarrow> string list) \<Rightarrow> (string \<rightharpoonup> Issue) \<Rightarrow> (string \<times> string) set" where
  "edge_rel dependsOn im = {(p, i). p \<in> set (dependsOn i) \<and> im p \<noteq> None}"

definition in_progress :: "layer_state \<Rightarrow> string set" where
  "in_progress st = {y \<in> snd st. fst st y = None}"

text \<open>
  \<open>returns\<close>: a call returns whenever fewer than \<open>n\<close> issues are unvisited.
\<close>

definition returns :: "(string \<rightharpoonup> Issue) \<Rightarrow> nat \<Rightarrow> (string \<Rightarrow> layer_state \<Rightarrow> (int \<times> layer_state) option) \<Rightarrow> bool" where
  "returns im n call \<longleftrightarrow>
     (\<forall>p st. im p \<noteq> None \<longrightarrow> card (dom im - snd st) < n \<longrightarrow>
        (\<exists>v st'. call p st = Some (v, st') \<and> snd st \<subseteq> snd st'))"

text \<open>
  The invariant of the memo table \<open>layers\<close>. The layer stored for \<open>i\<close> is
  \<open>1 + max (-1, c\<^sub>1, \<dots>)\<close> with one contribution per prerequisite that is an issue:
  its stored layer, or 0 if it lies on a cycle through \<open>i\<close>.
\<close>

definition existing :: "(string \<rightharpoonup> Issue) \<Rightarrow> string list \<Rightarrow> string list" where
  "existing im ps = filter (\<lambda>p. im p \<noteq> None) ps"

definition contribution ::
  "(string \<times> string) set \<Rightarrow> (string \<rightharpoonup> int) \<Rightarrow> string \<Rightarrow> string \<Rightarrow> int \<Rightarrow> bool" where
  "contribution R ls i p c \<longleftrightarrow> ls p = Some c \<or> (c = 0 \<and> (i, p) \<in> R\<^sup>+)"

definition entry_ok ::
  "(string \<Rightarrow> string list) \<Rightarrow> (string \<rightharpoonup> Issue) \<Rightarrow> (string \<rightharpoonup> int) \<Rightarrow> string \<Rightarrow> int \<Rightarrow> bool" where
  "entry_ok dependsOn im ls i l \<longleftrightarrow>
     (\<exists>cs. list_all2 (contribution (edge_rel dependsOn im) ls i) (existing im (dependsOn i)) cs
          \<and> l = 1 + Max (insert (- 1) (set cs)))"

definition memo_ok ::
  "(string \<Rightarrow> string list) \<Rightarrow> (string \<rightharpoonup> Issue) \<Rightarrow> (string \<rightharpoonup> int) \<Rightarrow> bool" where
  "memo_ok dependsOn im ls \<longleftrightarrow> (\<forall>i l. ls i = Some l \<longrightarrow> entry_ok dependsOn im ls i l)"

definition post ::
  "(string \<Rightarrow> string list) \<Rightarrow> (string \<rightharpoonup> Issue) \<Rightarrow> string \<Rightarrow> layer_state \<Rightarrow> int \<Rightarrow> layer_state \<Rightarrow> bool" where
  "post dependsOn im p st v st' \<longleftrightarrow>
     memo_ok dependsOn im (fst st') \<and> fst st \<subseteq>\<^sub>m fst st' \<and> in_progress st' = in_progress st
     \<and> (fst st' p = Some v \<or> (v = 0 \<and> p \<in> in_progress st))"

definition call_ok ::
  "(string \<Rightarrow> string list) \<Rightarrow> (string \<rightharpoonup> Issue) \<Rightarrow>
   (string \<Rightarrow> layer_state \<Rightarrow> (int \<times> layer_state) option) \<Rightarrow> bool" where
  "call_ok dependsOn im call \<longleftrightarrow>
     (\<forall>p st v st'. memo_ok dependsOn im (fst st) \<longrightarrow>
        (\<forall>y \<in> in_progress st. (p, y) \<in> (edge_rel dependsOn im)\<^sup>+) \<longrightarrow>
        call p st = Some (v, st') \<longrightarrow> post dependsOn im p st v st')"

text \<open>
  The structural prerequisites of an issue that are issues themselves, the relation
  they form, the layer map that \<open>buildGraph\<close> computes for a list of issues, and what
  makes the two iteration orders of a run possible ones: each lists every issue id
  once.
\<close>

definition prerequisites :: "Issue list \<Rightarrow> string \<Rightarrow> string list" where
  "prerequisites iss i = existing (issueMap_of iss) (dependsOn_of iss i)"

definition prereq_rel :: "Issue list \<Rightarrow> (string \<times> string) set" where
  "prereq_rel iss = {(p, i). p \<in> set (prerequisites iss i)}"

definition layers_of :: "runtime \<Rightarrow> Issue list \<Rightarrow> (string \<rightharpoonup> int) option" where
  "layers_of rt iss = compute_layers rt iss (issueMap_of iss)"

definition iteration_orders :: "runtime \<Rightarrow> Issue list \<Rightarrow> bool" where
  "iteration_orders rt iss \<longleftrightarrow>
     distinct (range_allIDs rt) \<and> set (range_allIDs rt) = issue_ids iss \<and>
     distinct (range_layers rt) \<and> set (range_layers rt) = issue_ids iss"

text \<open>
  The score that the specification's cycle policy describes: computed from the
  prerequisites that are not on a cycle through the issue.
\<close>

definition scored_without_cyclic_edges :: "Issue list \<Rightarrow> (string \<rightharpoonup> int) \<Rightarrow> string \<Rightarrow> bool" where
  "scored_without_cyclic_edges iss L i \<longleftrightarrow>
     L i = Some (1 + Max (insert (- 1)
       ((\<lambda>p. the (L p)) ` {p \<in> set (prerequisites iss i). (i, p) \<notin> (prereq_rel iss)\<^sup>+})))"

text \<open>
  Example inputs: the chain A, B, C, D of the specification (D depends on C, C on B,
  B on A), an issue that depends on itself, and two issues that depend on each other.
\<close>

definition mk_issue :: "string \<Rightarrow> (string \<times> string) list \<Rightarrow> Issue" where
  "mk_issue i ds = \<lparr>ID_issue = i, Title = i, Status = ''open'', IssueType = ''task'',
     Dependencies = map (\<lambda>(t, k). \<lparr>DependsOnID = t, Type = k\<rparr>) ds\<rparr>"

definition chain_issues :: "Issue list" where
  "chain_issues = [mk_issue ''D'' [(''C'', ''blocks'')], mk_issue ''B'' [(''A'', ''blocks'')],
                   mk_issue ''A'' [], mk_issue ''C'' [(''B'', ''parent-child'')]]"

definition chain_rt :: runtime where
  "chain_rt = \<lparr>truncateRunesHelper = (\<lambda>s w e. s), range_allIDs = [''D'', ''A'', ''C'', ''B''],
               range_layers = [''B'', ''D'', ''A'', ''C'']\<rparr>"

definition self_issues :: "Issue list" where
  "self_issues = [mk_issue ''A'' [(''A'', ''blocks'')]]"

definition self_rt :: runtime where
  "self_rt = \<lparr>truncateRunesHelper = (\<lambda>s w e. s), range_allIDs = [''A''], range_layers = [''A'']\<rparr>"

text \<open>
  \<open>placement\<close> is the part of \<open>buildGraph\<close> from the grouping by layer to the
  creation of the nodes. \<open>selection_ok\<close> is the invariant of the selection.
  \<open>reachable\<close> are the models that the constructor and the operations produce.
\<close>

definition placement ::
  "runtime \<Rightarrow> (string \<rightharpoonup> Issue) \<Rightarrow> (string \<rightharpoonup> int) \<Rightarrow> graphNode list \<times> (string \<rightharpoonup> int) \<times> int list list" where
  "placement rt im L =
     (let (layerGroups, maxLayer) = group_layers (range_layers rt) L (\<lambda>k. [], 0)
      in place_layers (truncateRunesHelper rt) im (\<lambda>layer. sort_Strings (layerGroups layer))
           [0..maxLayer] ([], Map.empty, replicate (nat (maxLayer + 1)) []))"

definition selection_ok :: "GraphModel \<Rightarrow> bool" where
  "selection_ok g \<longleftrightarrow>
     0 \<le> selectedNode g \<and> (nodes g \<noteq> [] \<longrightarrow> selectedNode g < int (length (nodes g)))
     \<and> (\<forall>n \<in> set (nodes g). issueMap g (id_n n) \<noteq> None)"

inductive reachable :: "GraphModel \<Rightarrow> bool" where
  reach_new: "NewGraphModel rt iss ins = Some g \<Longrightarrow> reachable g"
| reach_set: "reachable g \<Longrightarrow> SetIssues rt iss ins g = Some g' \<Longrightarrow> reachable g'"
| reach_up: "reachable g \<Longrightarrow> MoveUp g = Inr g' \<Longrightarrow> reachable g'"
| reach_down: "reachable g \<Longrightarrow> MoveDown g = Inr g' \<Longrightarrow> reachable g'"
| reach_left: "reachable g \<Longrightarrow> reachable (MoveLeft g)"
| reach_right: "reachable g \<Longrightarrow> reachable (MoveRight g)"
| reach_pageup: "reachable g \<Longrightarrow> reachable (PageUp g)"
| reach_pagedown: "reachable g \<Longrightarrow> reachable (PageDown g)"
| reach_scrollleft: "reachable g \<Longrightarrow> reachable (ScrollLeft g)"
| reach_scrollright: "reachable g \<Longrightarrow> reachable (ScrollRight g)"

text \<open>
  Two issues that depend on each other.
\<close>

definition cycle_issues :: "Issue list" where
  "cycle_issues = [mk_issue ''X'' [(''Y'', ''blocks'')], mk_issue ''Y'' [(''X'', ''blocks'')]]"

definition cycle_rt :: runtime where
  "cycle_rt = \<lparr>truncateRunesHelper = (\<lambda>s w e. s), range_allIDs = [''X'', ''Y''],
               range_layers = [''X'', ''Y'']\<rparr>"

text \<open>
  \<open>view\<close> is what construction produces. \<open>keep_deps P\<close> removes from an issue the
  dependencies that fail \<open>P\<close>; \<open>relevant\<close> are the dependencies that construction
  uses, \<open>present\<close> those whose target is an issue.
\<close>

definition view :: "GraphModel \<Rightarrow> graphNode list \<times> graphEdge list \<times> int list list \<times> int" where
  "view g = (nodes g, edges g, layers g, selectedNode g)"

definition keep_deps :: "(Dependency \<Rightarrow> bool) \<Rightarrow> Issue \<Rightarrow> Issue" where
  "keep_deps P issue = issue\<lparr>Dependencies := filter P (Dependencies issue)\<rparr>"

definition relevant :: "Issue list \<Rightarrow> Dependency \<Rightarrow> bool" where
  "relevant iss dep \<longleftrightarrow> structural dep \<and> DependsOnID dep \<in> issue_ids iss"

definition present :: "Issue list \<Rightarrow> Dependency \<Rightarrow> bool" where
  "present iss dep \<longleftrightarrow> DependsOnID dep \<in> issue_ids iss"

text \<open>
  The edge created for a dependency, and the test under which it is created.
\<close>

definition edge_of :: "(string \<rightharpoonup> int) \<Rightarrow> int \<Rightarrow> Dependency \<Rightarrow> graphEdge" where
  "edge_of nim idx dep = \<lparr>from_e = the (nim (DependsOnID dep)), to_e = idx, depType = Type dep\<rparr>"

definition drawn :: "(string \<rightharpoonup> int) \<Rightarrow> Dependency \<Rightarrow> bool" where
  "drawn nim dep \<longleftrightarrow> structural dep \<and> nim (DependsOnID dep) \<noteq> None"

text \<open>
  Example inputs: an issue with a non-structural dependency and a dependency on an
  unknown id, and an issue with a duplicated dependency.
\<close>

definition mixed_issues :: "Issue list" where
  "mixed_issues = [mk_issue ''A'' [(''B'', ''relates-to''), (''Z'', ''blocks'')],
                   mk_issue ''B'' [(''A'', ''blocks'')]]"

definition mixed_rt :: runtime where
  "mixed_rt = \<lparr>truncateRunesHelper = (\<lambda>s w e. s), range_allIDs = [''B'', ''A''],
               range_layers = [''A'', ''B'']\<rparr>"

definition dup_issues :: "Issue list" where
  "dup_issues = [mk_issue ''A'' [(''B'', ''blocks''), (''B'', ''blocks'')], mk_issue ''B'' []]"

definition dup_rt :: runtime where
  "dup_rt = \<lparr>truncateRunesHelper = (\<lambda>s w e. s), range_allIDs = [''A'', ''B''],
             range_layers = [''B'', ''A'']\<rparr>"

text \<open>
  The edges of a constructed graph as triples.
\<close>

definition edge_list :: "GraphModel option \<Rightarrow> (int \<times> int \<times> string) list option" where
  "edge_list r = map_option (\<lambda>g. map (\<lambda>e. (from_e e, to_e e, depType e)) (edges g)) r"


section \<open>Properties of the insights aggregator\<close>

lemma range_kv_eq: "range_kv m ss = ss @ map mk_kv m"
  by (induction m ss rule: range_kv.induct) (simp_all add: mk_kv_def)

lemma top_loop_eq:
  "top_loop ss limit i (Slice r) = Slice (r @ map item_of (take (nat limit - i) (drop i ss)))"
proof (induction "length ss - i" arbitrary: i r)
  case 0
  then show ?case by (subst top_loop.simps) simp
next
  case (Suc n)
  show ?case
  proof (cases "int i < limit")
    case True
    from Suc(2) have lt: "i < length ss" by simp
    from Suc(2) have n: "n = length ss - Suc i" by simp
    from True have pos: "nat limit - i = Suc (nat limit - Suc i)" by linarith
    have d: "drop i ss = ss ! i # drop (Suc i) ss"
      using lt by (simp add: Cons_nth_drop_Suc)
    show ?thesis
      using lt True Suc(1)[OF n] 
      by (subst top_loop.simps) (simp add: pos d item_of_def)
  next
    case False
    then have "nat limit - i = 0" by linarith
    with False show ?thesis by (subst top_loop.simps) simp
  qed
qed

lemma getTopItems_eq:
  "getTopItems m limit = Slice (map item_of (take (nat limit) (sort_Slice kv_less (map mk_kv m))))"
  by (simp add: getTopItems_def range_kv_eq top_loop_eq)

lemma set_insert_by: "set (insert_by lt x ys) = insert x (set ys)"
  by (induction ys) auto

lemma set_sort_Slice: "set (sort_Slice lt xs) = set xs"
  by (induction xs) (auto simp: set_insert_by)

lemma length_insert_by: "length (insert_by lt x ys) = Suc (length ys)"
  by (induction ys) auto

lemma length_sort_Slice: "length (sort_Slice lt xs) = length xs"
  by (induction xs) (auto simp: length_insert_by)

lemma sorted_insert_by:
  assumes "sorted_wrt lt ys" and "\<forall>y\<in>set ys. \<not> lt x y \<longrightarrow> lt y x"
    and "\<And>a b c. lt a b \<Longrightarrow> lt b c \<Longrightarrow> lt a c"
  shows "sorted_wrt lt (insert_by lt x ys)"
  using assms(1,2)
proof (induction ys)
  case Nil
  then show ?case by simp
next
  case (Cons y ys)
  show ?case
  proof (cases "lt x y")
    case True
    then have "\<forall>z\<in>set ys. lt x z" using Cons.prems(1) assms(3) by auto
    with True Cons.prems show ?thesis by simp
  next
    case False
    with Cons show ?thesis by (auto simp: set_insert_by)
  qed
qed

lemma sorted_sort_Slice:
  assumes "distinct xs" and "\<forall>x\<in>set xs. \<forall>y\<in>set xs. x \<noteq> y \<longrightarrow> lt x y \<or> lt y x"
    and "\<And>a b c. lt a b \<Longrightarrow> lt b c \<Longrightarrow> lt a c"
  shows "sorted_wrt lt (sort_Slice lt xs)"
  using assms(1,2)
proof (induction xs)
  case Nil
  then show ?case by simp
next
  case (Cons x xs)
  then have "sorted_wrt lt (sort_Slice lt xs)" by simp
  moreover have "\<forall>y\<in>set (sort_Slice lt xs). \<not> lt x y \<longrightarrow> lt y x"
    using Cons.prems by (auto simp: set_sort_Slice)
  ultimately show ?case using assms(3) by (simp add: sorted_insert_by)
qed

lemma sorted_wrt_unique:
  assumes "sorted_wrt lt xs" and "sorted_wrt lt ys" and "set xs = set ys"
    and "\<And>a b. lt a b \<Longrightarrow> \<not> lt b a"
  shows "xs = ys"
  using assms(1,2,3)
proof (induction xs arbitrary: ys)
  case Nil
  then show ?case by simp
next
  case (Cons x xs)
  then obtain y ys' where ys: "ys = y # ys'" by (cases ys) auto
  have irr: "\<And>a. \<not> lt a a" using assms(4) by blast
  have xy: "x = y"
  proof (rule ccontr)
    assume ne: "x \<noteq> y"
    have "x \<in> set ys'" using Cons.prems(3) ne ys by auto
    then have 1: "lt y x" using Cons.prems(2) ys by simp
    have "y \<in> set xs" using Cons.prems(3) ne ys by auto
    then have "lt x y" using Cons.prems(1) by simp
    with 1 assms(4) show False by blast
  qed
  have nx: "x \<notin> set xs" using Cons.prems(1) irr by auto
  have ny: "y \<notin> set ys'" using Cons.prems(2) ys irr by auto
  have "set xs = set ys'" using Cons.prems(3) ys xy nx ny by auto
  then have "xs = ys'" using Cons.IH Cons.prems(1,2) ys by simp
  with xy ys show ?case by simp
qed

text \<open>
  The model of \<open>sort.Slice\<close> does not depend on the sorting algorithm: on distinct
  elements that a transitive, asymmetric \<open>lt\<close> compares pairwise, every sorted
  rearrangement of the input is the list that insertion sort returns.
\<close>

lemma sort_Slice_unique:
  assumes "distinct xs" and "\<forall>x\<in>set xs. \<forall>y\<in>set xs. x \<noteq> y \<longrightarrow> lt x y \<or> lt y x"
    and "\<And>a b c. lt a b \<Longrightarrow> lt b c \<Longrightarrow> lt a c"
    and "\<And>a b. lt a b \<Longrightarrow> \<not> lt b a"
    and "sorted_wrt lt ys" and "set ys = set xs"
  shows "ys = sort_Slice lt xs"
  by (rule sorted_wrt_unique[OF assms(5) sorted_sort_Slice[OF assms(1,2,3)]])
     (simp_all add: assms(4,6) set_sort_Slice)

lemma kv_less_trans: "kv_less a b \<Longrightarrow> kv_less b c \<Longrightarrow> kv_less a c"
  by (auto simp: kv_less_def split: if_splits)

lemma kv_less_asym: "kv_less a b \<Longrightarrow> \<not> kv_less b a"
  by (auto simp: kv_less_def split: if_splits)

lemma kv_less_total: "Key a \<noteq> Key b \<Longrightarrow> kv_less a b \<or> kv_less b a"
  by (auto simp: kv_less_def)

lemma ranked_sorted_wrt: "ranked r \<longleftrightarrow> sorted_wrt ranks_before r"
  by (auto simp: ranked_def sorted_wrt_iff_nth_less)

lemma item_of_mk_kv: "item_of (mk_kv p) = entry_item p"
  by (simp add: item_of_def mk_kv_def entry_item_def)

lemma kv_less_ranks: "kv_less a b \<Longrightarrow> ranks_before (item_of a) (item_of b)"
  by (auto simp: kv_less_def ranks_before_def item_of_def split: if_splits)

lemma inj_mk_kv: "inj mk_kv"
  by (auto simp: inj_on_def mk_kv_def prod_eq_iff)

lemma sorted_full:
  assumes "distinct (map fst m)"
  shows "sorted_wrt kv_less (sort_Slice kv_less (map mk_kv m))"
proof (rule sorted_sort_Slice)
  have "distinct m" using assms by (simp add: distinct_map)
  then show "distinct (map mk_kv m)"
    using inj_mk_kv by (auto simp: distinct_map inj_on_def)
  show "\<forall>x\<in>set (map mk_kv m). \<forall>y\<in>set (map mk_kv m). x \<noteq> y \<longrightarrow> kv_less x y \<or> kv_less y x"
  proof (intro ballI impI)
    fix x y assume x: "x \<in> set (map mk_kv m)" and y: "y \<in> set (map mk_kv m)" and ne: "x \<noteq> y"
    from x obtain p where p: "p \<in> set m" "x = mk_kv p" by auto
    from y obtain q where q: "q \<in> set m" "y = mk_kv q" by auto
    from ne p q have "p \<noteq> q" by auto
    with assms p(1) q(1) have "fst p \<noteq> fst q"
      by (metis eq_key_imp_eq_value prod.collapse)
    then have "Key x \<noteq> Key y" by (simp add: p q mk_kv_def)
    then show "kv_less x y \<or> kv_less y x" by (rule kv_less_total)
  qed
  show "\<And>a b c. kv_less a b \<Longrightarrow> kv_less b c \<Longrightarrow> kv_less a c" by (rule kv_less_trans)
qed

lemma elems_getTopItems:
  "elems (getTopItems m limit) = take (nat limit) (map item_of (sort_Slice kv_less (map mk_kv m)))"
  by (simp add: getTopItems_eq take_map)

lemma full_ranking_sorted:
  assumes "distinct (map fst m)"
  shows "sorted_wrt ranks_before (map item_of (sort_Slice kv_less (map mk_kv m)))"
  using sorted_full[OF assms]
  by (simp add: sorted_wrt_map) (erule sorted_wrt_mono_rel[rotated], simp add: kv_less_ranks)

lemma full_ranking_set:
  "set (map item_of (sort_Slice kv_less (map mk_kv m))) = entry_item ` set m"
  by (simp add: set_sort_Slice image_image item_of_mk_kv)

lemma length_getTopItems: "length (elems (getTopItems m limit)) = min (nat limit) (length m)"
  by (simp add: elems_getTopItems length_sort_Slice min.commute)

lemma getTopItems_ranked:
  assumes "distinct (map fst m)"
  shows "ranked (elems (getTopItems m limit))"
  unfolding ranked_sorted_wrt elems_getTopItems
  using full_ranking_sorted[OF assms] by (rule sorted_wrt_take)

lemma getTopItems_subset: "set (elems (getTopItems m limit)) \<subseteq> entry_item ` set m"
  unfolding elems_getTopItems using full_ranking_set[of m] set_take_subset by fastforce

lemma getTopItems_top:
  assumes "distinct (map fst m)" and "p \<in> set m" and "entry_item p \<notin> set (elems (getTopItems m limit))"
    and "x \<in> set (elems (getTopItems m limit))"
  shows "ranks_before x (entry_item p)"
proof -
  let ?full = "map item_of (sort_Slice kv_less (map mk_kv m))"
  have "entry_item p \<in> set ?full" using assms(2) full_ranking_set[of m] by blast
  then have "entry_item p \<in> set (take (nat limit) ?full) \<union> set (drop (nat limit) ?full)"
    by (metis append_take_drop_id set_append)
  with assms(3) have d: "entry_item p \<in> set (drop (nat limit) ?full)"
    by (simp add: elems_getTopItems)
  have "sorted_wrt ranks_before (take (nat limit) ?full @ drop (nat limit) ?full)"
    using full_ranking_sorted[OF assms(1)] by simp
  then show ?thesis using d assms(4) unfolding sorted_wrt_append elems_getTopItems by blast
qed

lemma getTopItems_all:
  assumes "int (length m) \<le> limit"
  shows "set (elems (getTopItems m limit)) = entry_item ` set m"
  using assms full_ranking_set[of m] by (simp add: elems_getTopItems length_sort_Slice)

lemma getTopItems_same_map:
  assumes "same_map m1 m2"
  shows "getTopItems m1 limit = getTopItems m2 limit"
proof -
  have d1: "distinct (map fst m1)" and d2: "distinct (map fst m2)" and s: "set m1 = set m2"
    using assms by (simp_all add: same_map_def)
  have "sort_Slice kv_less (map mk_kv m1) = sort_Slice kv_less (map mk_kv m2)"
    by (rule sorted_wrt_unique[OF sorted_full[OF d1] sorted_full[OF d2]])
       (simp_all add: set_sort_Slice s kv_less_asym)
  then show ?thesis by (simp add: getTopItems_eq)
qed

lemma same_map_length: "same_map m1 m2 \<Longrightarrow> length m1 = length m2"
proof -
  assume a: "same_map m1 m2"
  then have "distinct m1" "distinct m2" "set m1 = set m2"
    by (simp_all add: same_map_def distinct_map)
  then show ?thesis by (metis distinct_card)
qed

text \<open>
  Claim C1. For a metric map (distinct keys, in any iteration order) and a positive limit
  \<open>N\<close>, \<open>getTopItems\<close> returns \<open>min N (size of the map)\<close> items; they are ordered by
  value descending and, among equal values, by identifier ascending; each is an entry of
  the map; every entry of the map that is left out ranks after every item returned (so
  the items are the top \<open>N\<close>); and an item \<open>bv-1\<close> stands before an item \<open>bv-2\<close> of
  equal value.
\<close>

theorem getTopItems_top_N:
  assumes "distinct (map fst m)" and "0 < N"
  shows "length (elems (getTopItems m N)) = min (nat N) (length m)
    \<and> ranked (elems (getTopItems m N))
    \<and> set (elems (getTopItems m N)) \<subseteq> entry_item ` set m
    \<and> (\<forall>p\<in>set m. entry_item p \<notin> set (elems (getTopItems m N)) \<longrightarrow>
          (\<forall>x\<in>set (elems (getTopItems m N)). ranks_before x (entry_item p)))
    \<and> (\<forall>i j. i < length (elems (getTopItems m N)) \<and> j < length (elems (getTopItems m N))
          \<and> ID (elems (getTopItems m N) ! i) = ''bv-1''
          \<and> ID (elems (getTopItems m N) ! j) = ''bv-2''
          \<and> Value (elems (getTopItems m N) ! i) = Value (elems (getTopItems m N) ! j)
          \<longrightarrow> i < j)"
proof -
  let ?r = "elems (getTopItems m N)"
  have rk: "ranked ?r" using assms(1) by (rule getTopItems_ranked)
  have tie: "i < j" if h: "i < length ?r" "j < length ?r" "ID (?r ! i) = ''bv-1''"
    "ID (?r ! j) = ''bv-2''" "Value (?r ! i) = Value (?r ! j)" for i j
  proof (rule ccontr)
    assume "\<not> i < j"
    moreover have "i \<noteq> j" using h(3,4) by auto
    ultimately have "j < i" by simp
    with rk h(1) have "ranks_before (?r ! j) (?r ! i)" by (simp add: ranked_def)
    with h(3,4,5) show False by (simp add: ranks_before_def)
  qed
  show ?thesis
    using rk length_getTopItems[of m N] getTopItems_subset[of m N]
      getTopItems_top[OF assms(1)] tie by blast
qed

theorem getTopItems_top_N_witness:
  "distinct (map fst [(''bv-2'', 1::real), (''bv-1'', 1), (''bv-3'', 2)]) \<and> (0::int) < 3
   \<and> elems (getTopItems [(''bv-2'', 1), (''bv-1'', 1), (''bv-3'', 2)] 3)
       = [\<lparr>ID = ''bv-3'', Value = 2\<rparr>, \<lparr>ID = ''bv-1'', Value = 1\<rparr>, \<lparr>ID = ''bv-2'', Value = 1\<rparr>]
   \<and> ranked (elems (getTopItems [(''bv-2'', 1), (''bv-1'', 1), (''bv-3'', 2)] 3))"
  using getTopItems_top_N [of "[(''bv-2'', 1), (''bv-1'', 1), (''bv-3'', 2)]" 3]
  by (simp add: getTopItems_eq mk_kv_def kv_less_def item_of_def)

lemma example_stats_snapshot: "snapshot_maps example_stats"
  by (auto simp: snapshot_maps_def metric_maps_def example_stats_def)

lemma metric_maps_nth:
  "k < 5 \<Longrightarrow> ranked_lists (GenerateInsights s N) ! k =
     getTopItems (metric_maps s ! k) (if N \<le> 0 then int (length (PageRank s)) else N)"
  by (auto simp: less_Suc_eq numeral_eq_Suc ranked_lists_def metric_maps_def GenerateInsights_def Let_def)

lemma snapshot_maps_length:
  assumes "snapshot_maps s" and "m \<in> set (metric_maps s)"
  shows "length m = length (PageRank s)"
proof -
  have "distinct (map fst m)" "distinct (map fst (PageRank s))"
    "set (map fst m) = set (map fst (PageRank s))"
    using assms by (auto simp: snapshot_maps_def)
  then have "length (map fst m) = length (map fst (PageRank s))"
    by (metis distinct_card)
  then show ?thesis by simp
qed

text \<open>
  Claim C2. On a graph snapshot (all metric maps have the key set of the PageRank map,
  one entry per node), each of the five ranked lists of \<open>GenerateInsights\<close> is ordered
  by value descending and identifier ascending; for a limit \<open>N \<le> 0\<close> the list has one
  item for every entry of its metric map and nothing is cut; for \<open>N > 0\<close> it has
  \<open>min N (number of nodes)\<close> items.
\<close>

theorem GenerateInsights_limit:
  assumes "snapshot_maps s"
  shows "\<forall>k<5. ranked (elems (ranked_lists (GenerateInsights s N) ! k))
     \<and> (N \<le> 0 \<longrightarrow>
          length (elems (ranked_lists (GenerateInsights s N) ! k)) = length (metric_maps s ! k)
        \<and> set (elems (ranked_lists (GenerateInsights s N) ! k)) = entry_item ` set (metric_maps s ! k))
     \<and> (0 < N \<longrightarrow>
          length (elems (ranked_lists (GenerateInsights s N) ! k))
            = min (nat N) (length (PageRank s)))"
proof (intro allI impI)
  fix k :: nat assume k: "k < 5"
  let ?m = "metric_maps s ! k"
  have "length (metric_maps s) = 5" by (simp add: metric_maps_def)
  with k have mem: "?m \<in> set (metric_maps s)" by (metis nth_mem)
  have len: "length ?m = length (PageRank s)" using assms mem by (rule snapshot_maps_length)
  have d: "distinct (map fst ?m)" using assms mem by (auto simp: snapshot_maps_def)
  show "ranked (elems (ranked_lists (GenerateInsights s N) ! k))
     \<and> (N \<le> 0 \<longrightarrow>
          length (elems (ranked_lists (GenerateInsights s N) ! k)) = length (metric_maps s ! k)
        \<and> set (elems (ranked_lists (GenerateInsights s N) ! k)) = entry_item ` set (metric_maps s ! k))
     \<and> (0 < N \<longrightarrow>
          length (elems (ranked_lists (GenerateInsights s N) ! k))
            = min (nat N) (length (PageRank s)))"
    using getTopItems_ranked[OF d] len
    by (simp add: metric_maps_nth[OF k] length_getTopItems getTopItems_all)
qed

theorem GenerateInsights_limit_witness:
  "snapshot_maps example_stats
   \<and> ranked (elems (ranked_lists (GenerateInsights example_stats 0) ! 0))
   \<and> length (elems (ranked_lists (GenerateInsights example_stats 0) ! 0)) = 2
   \<and> length (elems (ranked_lists (GenerateInsights example_stats (-3)) ! 4)) = 2
   \<and> length (elems (ranked_lists (GenerateInsights example_stats 1) ! 2)) = 1"
proof -
  have h: "snapshot_maps example_stats" by (rule example_stats_snapshot)
  have l: "length (PageRank example_stats) = 2"
    "length (metric_maps example_stats ! 0) = 2" "length (metric_maps example_stats ! 4) = 2"
    by (simp_all add: example_stats_def metric_maps_def)
  show ?thesis
    using h l GenerateInsights_limit [OF h, of 0] GenerateInsights_limit [OF h, of "-3"]
      GenerateInsights_limit [OF h, of 1]
    by simp
qed

lemma GenerateInsights_same:
  assumes "same_stats s1 s2" and "k < 5"
  shows "ranked_lists (GenerateInsights s1 N) ! k = ranked_lists (GenerateInsights s2 N) ! k"
proof -
  have "same_map (metric_maps s1 ! k) (metric_maps s2 ! k)"
    using assms by (simp add: same_stats_def list_all2_conv_all_nth metric_maps_def)
  moreover have "length (PageRank s1) = length (PageRank s2)"
    using assms(1) by (simp add: same_stats_def same_map_length)
  ultimately show ?thesis
    using assms(2) by (simp add: metric_maps_nth getTopItems_same_map)
qed

text \<open>
  Claim C3. Two runs of \<open>GenerateInsights\<close> on the same metric maps, whatever the order
  in which each run iterates over each map, with the same cycle list and density, return
  the same five ranked lists (items and order), the same cycle list and the same density.
\<close>

theorem GenerateInsights_deterministic:
  assumes "same_stats s1 s2"
  shows "Bottlenecks (GenerateInsights s1 N) = Bottlenecks (GenerateInsights s2 N)
    \<and> Keystones (GenerateInsights s1 N) = Keystones (GenerateInsights s2 N)
    \<and> Influencers (GenerateInsights s1 N) = Influencers (GenerateInsights s2 N)
    \<and> Hubs (GenerateInsights s1 N) = Hubs (GenerateInsights s2 N)
    \<and> Authorities (GenerateInsights s1 N) = Authorities (GenerateInsights s2 N)
    \<and> Orphans (GenerateInsights s1 N) = Orphans (GenerateInsights s2 N)
    \<and> Cycles (GenerateInsights s1 N) = Cycles (GenerateInsights s2 N)
    \<and> ClusterDensity (GenerateInsights s1 N) = ClusterDensity (GenerateInsights s2 N)"
proof -
  have "ranked_lists (GenerateInsights s1 N) ! 0 = ranked_lists (GenerateInsights s2 N) ! 0"
    "ranked_lists (GenerateInsights s1 N) ! 1 = ranked_lists (GenerateInsights s2 N) ! 1"
    "ranked_lists (GenerateInsights s1 N) ! 2 = ranked_lists (GenerateInsights s2 N) ! 2"
    "ranked_lists (GenerateInsights s1 N) ! 3 = ranked_lists (GenerateInsights s2 N) ! 3"
    "ranked_lists (GenerateInsights s1 N) ! 4 = ranked_lists (GenerateInsights s2 N) ! 4"
    using GenerateInsights_same[OF assms] by simp_all
  then have "Bottlenecks (GenerateInsights s1 N) = Bottlenecks (GenerateInsights s2 N)"
    "Keystones (GenerateInsights s1 N) = Keystones (GenerateInsights s2 N)"
    "Influencers (GenerateInsights s1 N) = Influencers (GenerateInsights s2 N)"
    "Hubs (GenerateInsights s1 N) = Hubs (GenerateInsights s2 N)"
    "Authorities (GenerateInsights s1 N) = Authorities (GenerateInsights s2 N)"
    by (simp_all add: ranked_lists_def numeral_eq_Suc)
  moreover have "Orphans (GenerateInsights s1 N) = Orphans (GenerateInsights s2 N)"
    "Cycles (GenerateInsights s1 N) = Cycles (GenerateInsights s2 N)"
    "ClusterDensity (GenerateInsights s1 N) = ClusterDensity (GenerateInsights s2 N)"
    using assms by (simp_all add: GenerateInsights_def Let_def same_stats_def)
  ultimately show ?thesis by simp
qed

theorem GenerateInsights_deterministic_witness:
  "same_stats example_stats example_stats_reordered
   \<and> Bottlenecks (GenerateInsights example_stats 0)
       = Bottlenecks (GenerateInsights example_stats_reordered 0)
   \<and> Bottlenecks (GenerateInsights example_stats_reordered 0)
       = Slice [\<lparr>ID = ''bv-1'', Value = 0\<rparr>, \<lparr>ID = ''bv-2'', Value = 0\<rparr>]
   \<and> Keystones (GenerateInsights example_stats 0)
       = Keystones (GenerateInsights example_stats_reordered 0)"
proof -
  have h: "same_stats example_stats example_stats_reordered"
    by (auto simp: same_stats_def same_map_def metric_maps_def example_stats_def
        example_stats_reordered_def)
  have v: "Bottlenecks (GenerateInsights example_stats_reordered 0)
       = Slice [\<lparr>ID = ''bv-1'', Value = 0\<rparr>, \<lparr>ID = ''bv-2'', Value = 0\<rparr>]"
    by (simp add: GenerateInsights_def example_stats_reordered_def getTopItems_eq mk_kv_def
        kv_less_def item_of_def)
  show ?thesis
    using h v GenerateInsights_deterministic [OF h, of 0] by simp
qed

text \<open>
  Claim C9. On the empty graph nothing fails: \<open>getTopItems\<close> on the empty metric map
  returns, for every limit, the empty non-nil slice, and on empty metric maps every
  ranked list of \<open>GenerateInsights\<close> is that empty slice.
\<close>

theorem insights_empty:
  assumes "empty_stats s"
  shows "getTopItems [] limit = Slice []
    \<and> Bottlenecks (GenerateInsights s limit) = Slice []
    \<and> Keystones (GenerateInsights s limit) = Slice []
    \<and> Influencers (GenerateInsights s limit) = Slice []
    \<and> Hubs (GenerateInsights s limit) = Slice []
    \<and> Authorities (GenerateInsights s limit) = Slice []"
  using assms
  by (simp add: empty_stats_def metric_maps_def GenerateInsights_def Let_def getTopItems_eq)

theorem insights_empty_witness:
  "empty_stats empty_example_stats
   \<and> getTopItems [] (-1) = Slice []
   \<and> ranked_lists (GenerateInsights empty_example_stats 0) = replicate 5 (Slice [])"
proof -
  have h: "empty_stats empty_example_stats"
    by (simp add: empty_stats_def empty_example_stats_def metric_maps_def)
  show ?thesis
    using h insights_empty [OF h, of "-1"] insights_empty [OF h, of 0]
    by (simp add: ranked_lists_def numeral_eq_Suc)
qed

section \<open>Properties of the graph view\<close>

lemma adjacency_deps_eq:
  "adjacency_deps ident deps d =
     d(ident := d ident @ map DependsOnID (filter structural deps))"
  by (induction deps arbitrary: d) (auto simp: structural_def)

lemma adjacency_eq:
  "adjacency iss (d, ids) =
     (\<lambda>k. d k @ concat (map (\<lambda>issue. map DependsOnID (filter structural (Dependencies issue)))
                          (filter (\<lambda>issue. ID_issue issue = k) iss)),
      ids \<union> ID_issue ` set iss)"
proof (induction iss arbitrary: d ids)
  case Nil
  then show ?case by simp
next
  case (Cons a iss)
  show ?case by (auto simp: Cons.IH adjacency_deps_eq fun_eq_iff)
qed

lemma dependsOn_of_eq:
  "dependsOn_of iss k =
     concat (map (\<lambda>issue. map DependsOnID (filter structural (Dependencies issue)))
                 (filter (\<lambda>issue. ID_issue issue = k) iss))"
  by (simp add: dependsOn_of_def adjacency_eq)

lemma allIDs_eq: "snd (adjacency iss (\<lambda>k. [], {})) = issue_ids iss"
  by (simp add: adjacency_eq issue_ids_def)

lemma dom_fill_issueMap: "dom (fill_issueMap iss m) = dom m \<union> ID_issue ` set iss"
  by (induction iss arbitrary: m) auto

lemma dom_issueMap_of: "dom (issueMap_of iss) = issue_ids iss"
  by (simp add: issueMap_of_def dom_fill_issueMap issue_ids_def)

lemma issueMap_of_None: "issueMap_of iss p \<noteq> None \<longleftrightarrow> p \<in> issue_ids iss"
  using dom_issueMap_of[of iss] by (auto simp: dom_def)

lemma card_issue_ids: "card (issue_ids iss) \<le> length iss"
  unfolding issue_ids_def by (metis card_image_le card_length le_trans List.finite_set)

subsection \<open>Fuel\<close>

lemma parents_loop_returns:
  assumes "finite (dom im)" and "returns im n call"
  shows "card (dom im - snd st) < n \<Longrightarrow>
         \<exists>v st'. parents_loop call im ps mp st = Some (v, st') \<and> snd st \<subseteq> snd st'"
proof (induction ps arbitrary: mp st)
  case Nil
  then show ?case by simp
next
  case (Cons p ps)
  show ?case
  proof (cases "im p = None")
    case True
    then show ?thesis using Cons by simp
  next
    case False
    with assms(2) Cons.prems obtain v st1 where c: "call p st = Some (v, st1)" "snd st \<subseteq> snd st1"
      unfolding returns_def by blast
    have "card (dom im - snd st1) \<le> card (dom im - snd st)"
      using c(2) assms(1) by (intro card_mono) auto
    with Cons.prems have "card (dom im - snd st1) < n" by simp
    from Cons.IH[OF this, of "if v > mp then v else mp"] c False show ?thesis
      by (auto simp del: split_paired_Ex)
  qed
qed

lemma computeLayer_returns:
  assumes "finite (dom im)"
  shows "returns im n (computeLayer n dependsOn im)"
proof (induction n)
  case 0
  then show ?case by (simp add: returns_def)
next
  case (Suc n)
  show ?case unfolding returns_def
  proof (intro allI impI)
    fix p and st :: layer_state
    assume p: "im p \<noteq> None" and c: "card (dom im - snd st) < Suc n"
    show "\<exists>v st'. computeLayer (Suc n) dependsOn im p st = Some (v, st') \<and> snd st \<subseteq> snd st'"
    proof (cases "fst st p = None \<and> p \<notin> snd st")
      case False
      then consider l where "fst st p = Some l" | "fst st p = None" "p \<in> snd st" by auto
      then show ?thesis
      proof cases
        case 1
        then show ?thesis by simp
      next
        case 2
        then show ?thesis by simp
      qed
    next
      case True
      let ?st0 = "(fst st, insert p (snd st))"
      have "p \<in> dom im - snd st" using p True by auto
      then have "card (dom im - insert p (snd st)) < card (dom im - snd st)"
        using assms by (intro psubset_card_mono) auto
      with c have "card (dom im - snd ?st0) < n" by simp
      from parents_loop_returns[OF assms Suc this, of "dependsOn p" "- 1"]
      obtain v st' where "parents_loop (computeLayer n dependsOn im) im (dependsOn p) (- 1) ?st0 = Some (v, st')"
        "snd ?st0 \<subseteq> snd st'" by blast
      with True show ?thesis by (auto split: prod.splits)
    qed
  qed
qed

lemma compute_all_returns:
  assumes "finite (dom im)" and "card (dom im) < n" and "\<forall>i \<in> set order. im i \<noteq> None"
  shows "\<exists>L. compute_all n dependsOn im order ls = Some L"
  using assms(3)
proof (induction order arbitrary: ls)
  case Nil
  then show ?case by simp
next
  case (Cons i order)
  have "im i \<noteq> None" using Cons.prems by simp
  moreover have "card (dom im - snd (ls, {}::string set)) < n" using assms(2) by simp
  ultimately obtain v st' where "computeLayer n dependsOn im i (ls, {}) = Some (v, st')"
    using computeLayer_returns[OF assms(1), of n dependsOn] unfolding returns_def by blast
  then show ?case using Cons by simp
qed

lemma compute_layers_total:
  assumes "set (range_allIDs rt) \<subseteq> issue_ids iss"
  shows "\<exists>L. compute_layers rt iss (issueMap_of iss) = Some L"
  unfolding compute_layers_def
proof (rule compute_all_returns)
  show "finite (dom (issueMap_of iss))" by (simp add: dom_issueMap_of issue_ids_def)
  show "card (dom (issueMap_of iss)) < Suc (length iss)"
    using card_issue_ids[of iss] by (simp add: dom_issueMap_of)
  show "\<forall>i\<in>set (range_allIDs rt). issueMap_of iss i \<noteq> None"
    using assms issueMap_of_None[of iss] by blast
qed

lemma call_okD:
  assumes "call_ok d im call" and "memo_ok d im (fst st)"
    and "\<forall>y \<in> in_progress st. (p, y) \<in> (edge_rel d im)\<^sup>+"
    and "call p st = Some (v, st')"
  shows "post d im p st v st'"
  using assms unfolding call_ok_def by blast

lemma map_le_Some: "m \<subseteq>\<^sub>m m' \<Longrightarrow> m x = Some y \<Longrightarrow> m' x = Some y"
  by (metis domI map_le_def)

lemma contribution_mono: "ls \<subseteq>\<^sub>m ls' \<Longrightarrow> contribution R ls i p c \<Longrightarrow> contribution R ls' i p c"
  by (auto simp: contribution_def dest: map_le_Some)

lemma entry_ok_mono:
  assumes "ls \<subseteq>\<^sub>m ls'" and "entry_ok d im ls i l"
  shows "entry_ok d im ls' i l"
proof -
  from assms(2) obtain cs where
    cs: "list_all2 (contribution (edge_rel d im) ls i) (existing im (d i)) cs"
    and l: "l = 1 + Max (insert (- 1) (set cs))"
    unfolding entry_ok_def by blast
  have "list_all2 (contribution (edge_rel d im) ls' i) (existing im (d i)) cs"
    using cs by (rule list_all2_mono) (rule contribution_mono[OF assms(1)])
  with l show ?thesis unfolding entry_ok_def by blast
qed

lemma Max_step:
  fixes mp v :: int
  assumes "finite C"
  shows "Max (insert (if v > mp then v else mp) C) = Max (insert mp (insert v C))"
proof -
  have "(if v > mp then v else mp) = max mp v" by simp
  moreover have "Max (insert mp (insert v C)) = max mp (Max (insert v C))"
    using assms by simp
  moreover have "Max (insert v C) = (if C = {} then v else max v (Max C))"
    using assms by simp
  moreover have "Max (insert (max mp v) C) = (if C = {} then max mp v else max (max mp v) (Max C))"
    using assms by simp
  ultimately show ?thesis by (simp add: max.assoc)
qed

lemma parents_loop_inv:
  assumes "call_ok d im call"
  shows "memo_ok d im (fst st) \<Longrightarrow>
     (\<forall>p \<in> set ps. im p \<noteq> None \<longrightarrow> (\<forall>y \<in> in_progress st. (p, y) \<in> (edge_rel d im)\<^sup>+)) \<Longrightarrow>
     parents_loop call im ps mp st = Some (mp', st') \<Longrightarrow>
     memo_ok d im (fst st') \<and> fst st \<subseteq>\<^sub>m fst st' \<and> in_progress st' = in_progress st
     \<and> (\<exists>cs. list_all2 (\<lambda>p c. fst st' p = Some c \<or> (c = 0 \<and> p \<in> in_progress st))
                (existing im ps) cs
            \<and> mp' = Max (insert mp (set cs)))"
proof (induction ps arbitrary: mp st)
  case Nil
  then show ?case by (simp add: existing_def)
next
  case (Cons p ps)
  show ?case
  proof (cases "im p = None")
    case True
    with Cons.prems have "parents_loop call im ps mp st = Some (mp', st')" by simp
    from Cons.IH[OF Cons.prems(1) _ this] Cons.prems(2) True show ?thesis
      by (simp add: existing_def)
  next
    case False
    with Cons.prems(3) obtain v st1 where c: "call p st = Some (v, st1)"
      and r: "parents_loop call im ps (if v > mp then v else mp) st1 = Some (mp', st')"
      by (auto split: option.splits)
    have "\<forall>y \<in> in_progress st. (p, y) \<in> (edge_rel d im)\<^sup>+" using Cons.prems(2) False by simp
    with assms Cons.prems(1) c have po: "post d im p st v st1" unfolding call_ok_def by blast
    then have m1: "memo_ok d im (fst st1)" and le1: "fst st \<subseteq>\<^sub>m fst st1"
      and ip1: "in_progress st1 = in_progress st"
      and v: "fst st1 p = Some v \<or> (v = 0 \<and> p \<in> in_progress st)"
      by (simp_all add: post_def)
    have "\<forall>q \<in> set ps. im q \<noteq> None \<longrightarrow> (\<forall>y \<in> in_progress st1. (q, y) \<in> (edge_rel d im)\<^sup>+)"
      using Cons.prems(2) ip1 by simp
    from Cons.IH[OF m1 this r] obtain cs where
      m': "memo_ok d im (fst st')" and le': "fst st1 \<subseteq>\<^sub>m fst st'"
      and ip': "in_progress st' = in_progress st1"
      and cs: "list_all2 (\<lambda>p c. fst st' p = Some c \<or> (c = 0 \<and> p \<in> in_progress st1)) (existing im ps) cs"
      and mp': "mp' = Max (insert (if v > mp then v else mp) (set cs))"
      by blast
    have hd: "fst st' p = Some v \<or> (v = 0 \<and> p \<in> in_progress st)"
      using v le' by (auto dest: map_le_Some)
    have "list_all2 (\<lambda>p c. fst st' p = Some c \<or> (c = 0 \<and> p \<in> in_progress st))
            (existing im (p # ps)) (v # cs)"
      using hd cs False ip1 by (simp add: existing_def)
    moreover have "mp' = Max (insert mp (set (v # cs)))"
      using mp' by (simp add: Max_step)
    moreover have "fst st \<subseteq>\<^sub>m fst st'" using le1 le' by (rule map_le_trans)
    ultimately show ?thesis using m' ip' ip1 by blast
  qed
qed

lemma computeLayer_inv: "call_ok d im (computeLayer n d im)"
proof (induction n)
  case 0
  then show ?case by (simp add: call_ok_def)
next
  case (Suc n)
  show ?case unfolding call_ok_def
  proof (intro allI impI)
    fix p and st :: layer_state and v and st' :: layer_state
    assume m: "memo_ok d im (fst st)"
      and h: "\<forall>y \<in> in_progress st. (p, y) \<in> (edge_rel d im)\<^sup>+"
      and c: "computeLayer (Suc n) d im p st = Some (v, st')"
    let ?R = "edge_rel d im"
    consider l where "fst st p = Some l" | "fst st p = None" "p \<in> snd st"
      | "fst st p = None" "p \<notin> snd st" by auto
    then show "post d im p st v st'"
    proof cases
      case 1
      with c have "v = l" "st' = st" by simp_all
      with 1 m show ?thesis by (simp add: post_def)
    next
      case 2
      with c have "v = 0" "st' = st" by simp_all
      with 2 m show ?thesis by (simp add: post_def in_progress_def)
    next
      case 3
      let ?st0 = "(fst st, insert p (snd st))"
      from c 3 obtain mp st1 where
        l: "parents_loop (computeLayer n d im) im (d p) (- 1) ?st0 = Some (mp, st1)"
        and v: "v = mp + 1" and st': "st' = ((fst st1)(p \<mapsto> mp + 1), snd st1)"
        by (auto split: option.splits)
      have ip0: "in_progress ?st0 = insert p (in_progress st)"
        using 3 by (auto simp: in_progress_def)
      have pre: "\<forall>q \<in> set (d p). im q \<noteq> None \<longrightarrow> (\<forall>y \<in> in_progress ?st0. (q, y) \<in> ?R\<^sup>+)"
      proof (intro ballI impI)
        fix q y assume q: "q \<in> set (d p)" "im q \<noteq> None" and y: "y \<in> in_progress ?st0"
        have qp: "(q, p) \<in> ?R" using q by (simp add: edge_rel_def)
        show "(q, y) \<in> ?R\<^sup>+"
        proof (cases "y = p")
          case True
          with qp show ?thesis by auto
        next
          case False
          with y ip0 have "y \<in> in_progress st" by simp
          with h have "(p, y) \<in> ?R\<^sup>+" by simp
          with qp show ?thesis by (rule trancl_into_trancl2)
        qed
      qed
      have m0: "memo_ok d im (fst ?st0)" using m by simp
      from parents_loop_inv[OF Suc m0 pre l] obtain cs where
        m1: "memo_ok d im (fst st1)" and le1: "fst st \<subseteq>\<^sub>m fst st1"
        and ip1: "in_progress st1 = insert p (in_progress st)"
        and cs: "list_all2 (\<lambda>q c. fst st1 q = Some c \<or> (c = 0 \<and> q \<in> insert p (in_progress st)))
                   (existing im (d p)) cs"
        and mp: "mp = Max (insert (- 1) (set cs))"
        unfolding ip0 by auto
      have none1: "fst st1 p = None" using ip1 by (auto simp: in_progress_def)
      have le2: "fst st1 \<subseteq>\<^sub>m fst st'" using none1 st' by (auto simp: map_le_def)
      have le: "fst st \<subseteq>\<^sub>m fst st'" using le1 le2 by (rule map_le_trans)
      have ip: "in_progress st' = in_progress st"
        using ip1 3 st' by (auto simp: in_progress_def)
      have "list_all2 (contribution ?R (fst st') p) (existing im (d p)) cs"
      proof (rule list.rel_mono_strong[OF cs])
        fix q c assume "q \<in> set (existing im (d p))" and "c \<in> set cs"
          and qc: "fst st1 q = Some c \<or> (c = 0 \<and> q \<in> insert p (in_progress st))"
        then have qp: "(q, p) \<in> ?R" by (simp add: existing_def edge_rel_def)
        from qc consider "fst st1 q = Some c" | "c = 0" "q = p" | "c = 0" "q \<in> in_progress st"
          by auto
        then show "contribution ?R (fst st') p q c"
        proof cases
          case 1
          with le2 show ?thesis by (auto simp: contribution_def dest: map_le_Some)
        next
          case 2
          with qp show ?thesis by (auto simp: contribution_def)
        next
          case 3
          with h show ?thesis by (simp add: contribution_def)
        qed
      qed
      with mp v have ep: "entry_ok d im (fst st') p v" unfolding entry_ok_def by auto
      have "memo_ok d im (fst st')"
        unfolding memo_ok_def
      proof (intro allI impI)
        fix i l assume il: "fst st' i = Some l"
        show "entry_ok d im (fst st') i l"
        proof (cases "i = p")
          case True
          with il st' v ep show ?thesis by simp
        next
          case False
          with il st' have "fst st1 i = Some l" by simp
          with m1 have "entry_ok d im (fst st1) i l" by (simp add: memo_ok_def)
          with le2 show ?thesis by (rule entry_ok_mono)
        qed
      qed
      moreover have "fst st' p = Some v" using st' v by simp
      ultimately show ?thesis using le ip by (simp add: post_def)
    qed
  qed
qed

lemma compute_all_inv:
  "memo_ok d im ls \<Longrightarrow> compute_all n d im order ls = Some L \<Longrightarrow>
     memo_ok d im L \<and> ls \<subseteq>\<^sub>m L \<and> (\<forall>i \<in> set order. L i \<noteq> None)"
proof (induction order arbitrary: ls)
  case Nil
  then show ?case by simp
next
  case (Cons i order)
  from Cons.prems(2) obtain v st' where c: "computeLayer n d im i (ls, {}) = Some (v, st')"
    and r: "compute_all n d im order (fst st') = Some L"
    by (auto split: option.splits)
  have ip: "\<forall>y \<in> in_progress (ls, {}). (i, y) \<in> (edge_rel d im)\<^sup>+"
    by (simp add: in_progress_def)
  have m0: "memo_ok d im (fst (ls, {}::string set))" using Cons.prems(1) by simp
  have "post d im i (ls, {}) v st'"
    using computeLayer_inv m0 ip c by (rule call_okD)
  then have m: "memo_ok d im (fst st')" and le: "ls \<subseteq>\<^sub>m fst st'" and i: "fst st' i = Some v"
    by (simp_all add: post_def in_progress_def)
  from Cons.IH[OF m r] have "memo_ok d im L" "fst st' \<subseteq>\<^sub>m L" "\<forall>i \<in> set order. L i \<noteq> None"
    by simp_all
  moreover have "L i = Some v" using i \<open>fst st' \<subseteq>\<^sub>m L\<close> by (rule map_le_Some[rotated])
  moreover have "ls \<subseteq>\<^sub>m L" using le \<open>fst st' \<subseteq>\<^sub>m L\<close> by (rule map_le_trans)
  ultimately show ?case by simp
qed

lemma prereq_rel_edge_rel: "prereq_rel iss = edge_rel (dependsOn_of iss) (issueMap_of iss)"
  by (auto simp: prereq_rel_def edge_rel_def prerequisites_def existing_def)

lemma memo_ok_empty: "memo_ok d im Map.empty"
  by (simp add: memo_ok_def)

lemma entry_ok_nonneg: "entry_ok d im ls i l \<Longrightarrow> 0 \<le> l"
proof -
  assume "entry_ok d im ls i l"
  then obtain cs :: "int list" where l: "l = 1 + Max (insert (- 1) (set cs))"
    unfolding entry_ok_def by blast
  have "(- 1 :: int) \<le> Max (insert (- 1) (set cs))" by (rule Max_ge) simp_all
  with l show ?thesis by linarith
qed

lemma layers_of_inv:
  assumes "iteration_orders rt iss"
  shows "\<exists>L. layers_of rt iss = Some L \<and> memo_ok (dependsOn_of iss) (issueMap_of iss) L
            \<and> (\<forall>i \<in> issue_ids iss. L i \<noteq> None)"
proof -
  have "set (range_allIDs rt) \<subseteq> issue_ids iss" using assms by (simp add: iteration_orders_def)
  then obtain L where L: "compute_layers rt iss (issueMap_of iss) = Some L"
    using compute_layers_total by blast
  then have "compute_all (Suc (length iss)) (dependsOn_of iss) (issueMap_of iss) (range_allIDs rt)
               Map.empty = Some L"
    by (simp add: compute_layers_def dependsOn_of_def)
  from compute_all_inv[OF memo_ok_empty this] assms L show ?thesis
    by (simp add: layers_of_def iteration_orders_def)
qed

lemma entry_scored:
  assumes "memo_ok (dependsOn_of iss) (issueMap_of iss) L" and "L i = Some l"
  shows "0 \<le> l \<and> (\<exists>cs. list_all2 (\<lambda>p c. 0 \<le> c \<and> (L p = Some c \<or> (c = 0 \<and> (i, p) \<in> (prereq_rel iss)\<^sup>+)))
                    (prerequisites iss i) cs
            \<and> l = 1 + Max (insert (- 1) (set cs)))"
proof -
  from assms have e: "entry_ok (dependsOn_of iss) (issueMap_of iss) L i l"
    by (simp add: memo_ok_def)
  then obtain cs where
    cs: "list_all2 (contribution (prereq_rel iss) L i) (prerequisites iss i) cs"
    and l: "l = 1 + Max (insert (- 1) (set cs))"
    unfolding entry_ok_def prereq_rel_edge_rel prerequisites_def by blast
  have "list_all2 (\<lambda>p c. 0 \<le> c \<and> (L p = Some c \<or> (c = 0 \<and> (i, p) \<in> (prereq_rel iss)\<^sup>+)))
          (prerequisites iss i) cs"
  proof (rule list_all2_mono[OF cs])
    fix p c assume c: "contribution (prereq_rel iss) L i p c"
    have "0 \<le> c"
    proof (cases "L p = Some c")
      case True
      with assms(1) have "entry_ok (dependsOn_of iss) (issueMap_of iss) L p c"
        by (simp add: memo_ok_def)
      then show ?thesis by (rule entry_ok_nonneg)
    next
      case False
      with c show ?thesis by (simp add: contribution_def)
    qed
    with c show "0 \<le> c \<and> (L p = Some c \<or> (c = 0 \<and> (i, p) \<in> (prereq_rel iss)\<^sup>+))"
      by (simp add: contribution_def)
  qed
  with l entry_ok_nonneg[OF e] show ?thesis by blast
qed

lemma list_all2_eq_map:
  "list_all2 (\<lambda>p c. c = f p) ps cs \<Longrightarrow> cs = map f ps"
  by (induction ps cs rule: list_all2_induct) simp_all

text \<open>
  Claim C4. The layer computation of \<open>buildGraph\<close> gives every issue that is not on
  a dependency cycle its score, whatever the order in which the ids are visited: 0 if the
  issue has no structural prerequisite among the issues, and otherwise 1 + the maximum
  of the scores of its structural prerequisites. On the chain A, B, C, D the scores are
  0, 1, 2, 3 (the witness). Issues on a cycle are the subject of claim C5.
\<close>

theorem layer_is_longest_path:
  assumes "iteration_orders rt iss" and "i \<in> issue_ids iss" and "(i, i) \<notin> (prereq_rel iss)\<^sup>+"
  shows "\<exists>L l. layers_of rt iss = Some L \<and> L i = Some l
     \<and> (\<forall>p \<in> set (prerequisites iss i). L p \<noteq> None)
     \<and> l = (if prerequisites iss i = [] then 0
            else 1 + Max ((\<lambda>p. the (L p)) ` set (prerequisites iss i)))"
proof -
  from layers_of_inv[OF assms(1)] obtain L where L: "layers_of rt iss = Some L"
    and m: "memo_ok (dependsOn_of iss) (issueMap_of iss) L"
    and a: "\<forall>i \<in> issue_ids iss. L i \<noteq> None" by blast
  from a assms(2) obtain l where l: "L i = Some l" by auto
  from entry_scored[OF m l] obtain cs where
    cs: "list_all2 (\<lambda>p c. 0 \<le> c \<and> (L p = Some c \<or> (c = 0 \<and> (i, p) \<in> (prereq_rel iss)\<^sup>+)))
           (prerequisites iss i) cs"
    and lv: "l = 1 + Max (insert (- 1) (set cs))" by blast
  have nocyc: "(i, p) \<notin> (prereq_rel iss)\<^sup>+" if "p \<in> set (prerequisites iss i)" for p
  proof
    assume "(i, p) \<in> (prereq_rel iss)\<^sup>+"
    moreover have "(p, i) \<in> prereq_rel iss" using that by (simp add: prereq_rel_def)
    ultimately have "(i, i) \<in> (prereq_rel iss)\<^sup>+" by (rule trancl_into_trancl)
    with assms(3) show False by simp
  qed
  have cs2: "list_all2 (\<lambda>p c. 0 \<le> c \<and> L p = Some c) (prerequisites iss i) cs"
    using cs by (rule list.rel_mono_strong) (use nocyc in blast)
  then have "list_all2 (\<lambda>p c. c = the (L p)) (prerequisites iss i) cs"
    by (rule list_all2_mono) simp
  then have cseq: "cs = map (\<lambda>p. the (L p)) (prerequisites iss i)" by (rule list_all2_eq_map)
  have dom: "\<forall>p \<in> set (prerequisites iss i). L p \<noteq> None"
    using cs2 by (auto simp: list_all2_conv_all_nth in_set_conv_nth)
  have nonneg: "\<forall>c \<in> set cs. 0 \<le> c"
    using cs2 by (auto simp: list_all2_conv_all_nth in_set_conv_nth)
  have "l = (if prerequisites iss i = [] then 0
            else 1 + Max ((\<lambda>p. the (L p)) ` set (prerequisites iss i)))"
  proof (cases "prerequisites iss i = []")
    case True
    with cseq lv show ?thesis by simp
  next
    case False
    then have ne: "set cs \<noteq> {}" using cseq by simp
    then obtain c where "c \<in> set cs" by (cases cs) auto
    with nonneg have "0 \<le> Max (set cs)" by (meson List.finite_set Max_ge order_trans)
    moreover have "Max (insert (- 1) (set cs)) = max (- 1) (Max (set cs))"
      using ne by simp
    ultimately have "Max (insert (- 1) (set cs)) = Max (set cs)" by simp
    with lv False cseq show ?thesis by simp
  qed
  with L l dom show ?thesis by blast
qed

text \<open>
  Claim C5. Cyclic edges are not ignored (see the example before this
  statement). What holds on every input, cyclic or not: the layer computation returns within the fuel of
  one call per issue plus one, and gives every issue a score \<open>l \<ge> 0\<close> with
  \<open>l = 1 + max (-1, c\<^sub>1, \<dots>, c\<^sub>k)\<close>, one \<open>c\<close> per structural prerequisite among the
  issues: either that prerequisite's own score, or 0 for a prerequisite that lies on a
  cycle through the issue (the computation met it while it was in progress). A cyclic
  edge is therefore not ignored: an issue with any prerequisite scores at least 1.
\<close>

theorem layer_with_cycles:
  assumes "iteration_orders rt iss" and "i \<in> issue_ids iss"
  shows "\<exists>L l cs. layers_of rt iss = Some L \<and> L i = Some l \<and> 0 \<le> l
     \<and> list_all2 (\<lambda>p c. 0 \<le> c \<and> (L p = Some c \<or> (c = 0 \<and> (i, p) \<in> (prereq_rel iss)\<^sup>+)))
          (prerequisites iss i) cs
     \<and> l = 1 + Max (insert (- 1) (set cs))
     \<and> (prerequisites iss i \<noteq> [] \<longrightarrow> 1 \<le> l)"
proof -
  from layers_of_inv[OF assms(1)] obtain L where L: "layers_of rt iss = Some L"
    and m: "memo_ok (dependsOn_of iss) (issueMap_of iss) L"
    and a: "\<forall>i \<in> issue_ids iss. L i \<noteq> None" by blast
  from a assms(2) obtain l where l: "L i = Some l" by auto
  from entry_scored[OF m l] obtain cs where l0: "0 \<le> l" and
    cs: "list_all2 (\<lambda>p c. 0 \<le> c \<and> (L p = Some c \<or> (c = 0 \<and> (i, p) \<in> (prereq_rel iss)\<^sup>+)))
           (prerequisites iss i) cs"
    and lv: "l = 1 + Max (insert (- 1) (set cs))" by blast
  have "1 \<le> l" if "prerequisites iss i \<noteq> []"
  proof -
    from that cs have "cs \<noteq> []" by (auto simp: list_all2_conv_all_nth)
    then obtain c where c: "c \<in> set cs" by (cases cs) auto
    then have "0 \<le> c" using cs by (auto simp: list_all2_conv_all_nth in_set_conv_nth)
    moreover have "c \<le> Max (insert (- 1) (set cs))" using c by (intro Max_ge) simp_all
    ultimately show ?thesis using lv by linarith
  qed
  with L l l0 cs lv show ?thesis by blast
qed

lemma self_layers: "layers_of self_rt self_issues = Some [''A'' \<mapsto> 1]"
  by (simp add: layers_of_def compute_layers_def issueMap_of_def self_issues_def self_rt_def
      mk_issue_def DepBlocks_def DepParentChild_def)

lemma self_prereqs: "prerequisites self_issues ''A'' = [''A'']"
  by (simp add: prerequisites_def existing_def dependsOn_of_eq structural_def issueMap_of_def self_issues_def
      mk_issue_def DepBlocks_def DepParentChild_def)

text \<open>
  An issue whose only structural dependency is itself lies on a cycle and has no
  non-cyclic prerequisite; scored from its non-cyclic prerequisites alone it would get 0,
  but the code gives it 1.
\<close>

theorem cyclic_edge_counts_counterexample:
  "layers_of self_rt self_issues \<noteq> None
   \<and> (''A'', ''A'') \<in> (prereq_rel self_issues)\<^sup>+
   \<and> the (layers_of self_rt self_issues) ''A'' = Some 1
   \<and> \<not> scored_without_cyclic_edges self_issues (the (layers_of self_rt self_issues)) ''A''"
proof -
  have e: "(''A'', ''A'') \<in> (prereq_rel self_issues)\<^sup>+"
    by (rule r_into_trancl) (simp add: prereq_rel_def self_prereqs)
  then have s: "{p \<in> set (prerequisites self_issues ''A''). (''A'', p) \<notin> (prereq_rel self_issues)\<^sup>+} = {}"
    by (auto simp: self_prereqs)
  have "\<not> scored_without_cyclic_edges self_issues (the (layers_of self_rt self_issues)) ''A''"
    unfolding scored_without_cyclic_edges_def s by (simp add: self_layers)
  with e show ?thesis by (simp add: self_layers)
qed

lemma buildGraph_empty:
  "issues g = [] \<Longrightarrow> buildGraph rt g = Some (g\<lparr>nodes := [], edges := [], layers := []\<rparr>)"
  by (simp add: buildGraph_def)

lemma buildGraph_None:
  "issues g \<noteq> [] \<Longrightarrow> compute_layers rt (issues g) (issueMap g) = None \<Longrightarrow> buildGraph rt g = None"
  by (simp add: buildGraph_def)

lemma buildGraph_Some:
  assumes "issues g \<noteq> []" and "compute_layers rt (issues g) (issueMap g) = Some L"
    and "placement rt (issueMap g) L = (ns, nim, rows)"
  shows "buildGraph rt g =
     Some (g\<lparr>nodes := ns, edges := issue_edges nim (issues g) [], layers := rows,
             selectedNode := (if selectedNode g \<ge> int (length ns) then 0 else selectedNode g)\<rparr>)"
proof -
  obtain groups maxLayer where gl: "group_layers (range_layers rt) L (\<lambda>k. [], 0) = (groups, maxLayer)"
    by (cases "group_layers (range_layers rt) L (\<lambda>k. [], 0)")
  with assms(3) have pl: "place_layers (truncateRunesHelper rt) (issueMap g)
      (\<lambda>layer. sort_Strings (groups layer)) [0..maxLayer]
      ([], Map.empty, replicate (nat (maxLayer + 1)) []) = (ns, nim, rows)"
    by (simp add: placement_def)
  show ?thesis
    using assms(1,2) gl pl by (simp add: buildGraph_def Let_def)
qed

lemma place_nodes_ids:
  "place_nodes trunc im l ids i (ns, nim, row) = (ns', nim', row') \<Longrightarrow>
   \<forall>n \<in> set ns. im (id_n n) \<noteq> None \<Longrightarrow> \<forall>n \<in> set ns'. im (id_n n) \<noteq> None"
proof (induction ids arbitrary: i ns nim row)
  case Nil
  then show ?case by simp
next
  case (Cons a ids)
  show ?case
  proof (cases "im a")
    case None
    with Cons.prems(1) have "place_nodes trunc im l ids (Suc i) (ns, nim, row) = (ns', nim', row')"
      by simp
    from Cons.IH[OF this Cons.prems(2)] show ?thesis .
  next
    case (Some issue)
    define node where "node = \<lparr>id_n = a, title_n = trunc (Title issue) (nodeWidth - 4) ellipsis,
        x_n = int i * (nodeWidth + horizontalGap), y_n = l * (nodeHeight + verticalGap),
        width_n = nodeWidth, height_n = nodeHeight, layer_n = l, status_n = Status issue,
        itype_n = IssueType issue\<rparr>"
    have n: "id_n node = a" by (simp add: node_def)
    have p: "place_nodes trunc im l ids (Suc i) (ns @ [node], nim(a \<mapsto> int (length ns)), row[i := int (length ns)])
            = (ns', nim', row')"
      using Cons.prems(1) Some by (simp add: Let_def node_def)
    have "\<forall>n \<in> set (ns @ [node]). im (id_n n) \<noteq> None" using Cons.prems(2) n Some by simp
    from Cons.IH[OF p this] show ?thesis .
  qed
qed

lemma place_layers_ids:
  "place_layers trunc im groups ls (ns, nim, rows) = (ns', nim', rows') \<Longrightarrow>
   \<forall>n \<in> set ns. im (id_n n) \<noteq> None \<Longrightarrow> \<forall>n \<in> set ns'. im (id_n n) \<noteq> None"
proof (induction ls arbitrary: ns nim rows)
  case Nil
  then show ?case by simp
next
  case (Cons l ls)
  obtain ns1 nim1 row where
    p: "place_nodes trunc im l (groups l) 0 (ns, nim, replicate (length (groups l)) 0) = (ns1, nim1, row)"
    by (metis prod_cases3)
  with Cons.prems(1) have
    r: "place_layers trunc im groups ls (ns1, nim1, rows[nat l := row]) = (ns', nim', rows')"
    by (simp add: Let_def)
  from place_nodes_ids[OF p Cons.prems(2)] Cons.IH[OF r] show ?case by blast
qed

lemma placement_ids:
  "placement rt im L = (ns, nim, rows) \<Longrightarrow> \<forall>n \<in> set ns. im (id_n n) \<noteq> None"
  unfolding placement_def Let_def
  by (auto split: prod.splits dest!: place_layers_ids)

lemma buildGraph_selection:
  assumes "buildGraph rt g = Some g'" and "0 \<le> selectedNode g"
  shows "selection_ok g'"
proof (cases "issues g = []")
  case True
  with assms show ?thesis by (auto simp: buildGraph_empty selection_ok_def)
next
  case False
  with assms(1) obtain L where L: "compute_layers rt (issues g) (issueMap g) = Some L"
    by (cases "compute_layers rt (issues g) (issueMap g)") (auto simp: buildGraph_None)
  obtain ns nim rows where p: "placement rt (issueMap g) L = (ns, nim, rows)"
    by (metis prod_cases3)
  from buildGraph_Some[OF False L p] assms(1) have
    g': "g' = g\<lparr>nodes := ns, edges := issue_edges nim (issues g) [], layers := rows,
             selectedNode := (if selectedNode g \<ge> int (length ns) then 0 else selectedNode g)\<rparr>"
    by simp
  from placement_ids[OF p] assms(2) show ?thesis
    by (auto simp: g' selection_ok_def)
qed

lemma chain_orders: "iteration_orders chain_rt chain_issues"
  by (auto simp: iteration_orders_def issue_ids_def chain_rt_def chain_issues_def mk_issue_def)

lemma chain_prereqs:
  "prerequisites chain_issues k =
     (if k = ''D'' then [''C''] else if k = ''B'' then [''A''] else if k = ''C'' then [''B''] else [])"
  by (simp add: prerequisites_def existing_def dependsOn_of_eq structural_def issueMap_of_def
      chain_issues_def mk_issue_def DepBlocks_def DepParentChild_def)

lemma chain_acyclic: "acyclic (prereq_rel chain_issues)"
proof (rule acyclicI_order)
  fix a b assume "(a, b) \<in> prereq_rel chain_issues"
  then show "(\<lambda>s. if s = ''A'' then 3 else if s = ''B'' then 2 else if s = ''C'' then 1 else (0::nat)) b
      < (\<lambda>s. if s = ''A'' then 3 else if s = ''B'' then 2 else if s = ''C'' then 1 else (0::nat)) a"
    by (auto simp: prereq_rel_def chain_prereqs split: if_splits)
qed

lemma chain_layers:
  "layers_of chain_rt chain_issues = Some [''A'' \<mapsto> 0, ''B'' \<mapsto> 1, ''C'' \<mapsto> 2, ''D'' \<mapsto> 3]"
  by (simp add: layers_of_def compute_layers_def issueMap_of_def chain_issues_def chain_rt_def
      mk_issue_def DepBlocks_def DepParentChild_def)

theorem layer_is_longest_path_witness:
  "iteration_orders chain_rt chain_issues \<and> ''D'' \<in> issue_ids chain_issues
   \<and> (''D'', ''D'') \<notin> (prereq_rel chain_issues)\<^sup>+
   \<and> prerequisites chain_issues ''D'' = [''C'']
   \<and> map (the (layers_of chain_rt chain_issues)) [''A'', ''B'', ''C'', ''D'']
       = [Some 0, Some 1, Some 2, Some 3]
   \<and> the (layers_of chain_rt chain_issues) ''D''
       = Some (1 + Max ((\<lambda>p. the (the (layers_of chain_rt chain_issues) p))
                         ` set (prerequisites chain_issues ''D'')))"
proof -
  have d: "''D'' \<in> issue_ids chain_issues"
    by (simp add: issue_ids_def chain_issues_def mk_issue_def)
  have p: "prerequisites chain_issues ''D'' = [''C'']" by (simp add: chain_prereqs)
  have n: "(''D'', ''D'') \<notin> (prereq_rel chain_issues)\<^sup>+"
    using chain_acyclic by (simp add: acyclic_def)
  from layer_is_longest_path [OF chain_orders d n]
  have "the (layers_of chain_rt chain_issues) ''D''
       = Some (1 + Max ((\<lambda>p. the (the (layers_of chain_rt chain_issues) p))
                         ` set (prerequisites chain_issues ''D'')))"
    by (auto simp: p)
  then show ?thesis using chain_orders n d p by (simp add: chain_layers)
qed

lemma cycle_orders: "iteration_orders cycle_rt cycle_issues"
  by (auto simp: iteration_orders_def issue_ids_def cycle_rt_def cycle_issues_def mk_issue_def)

lemma cycle_layers: "layers_of cycle_rt cycle_issues = Some [''Y'' \<mapsto> 1, ''X'' \<mapsto> 2]"
  by (simp add: layers_of_def compute_layers_def issueMap_of_def cycle_issues_def cycle_rt_def
      mk_issue_def DepBlocks_def DepParentChild_def)

theorem layer_with_cycles_witness:
  "iteration_orders cycle_rt cycle_issues \<and> ''Y'' \<in> issue_ids cycle_issues
   \<and> prerequisites cycle_issues ''Y'' = [''X'']
   \<and> the (layers_of cycle_rt cycle_issues) ''Y'' = Some 1
   \<and> the (layers_of cycle_rt cycle_issues) ''X'' = Some 2
   \<and> (\<exists>l. the (layers_of cycle_rt cycle_issues) ''Y'' = Some l \<and> 1 \<le> l)"
proof -
  have y: "''Y'' \<in> issue_ids cycle_issues"
    by (simp add: issue_ids_def cycle_issues_def mk_issue_def)
  have p: "prerequisites cycle_issues ''Y'' = [''X'']"
    by (simp add: prerequisites_def existing_def dependsOn_of_eq structural_def issueMap_of_def
      cycle_issues_def mk_issue_def DepBlocks_def DepParentChild_def)
  from layer_with_cycles [OF cycle_orders y]
  have "\<exists>l. the (layers_of cycle_rt cycle_issues) ''Y'' = Some l \<and> 1 \<le> l"
    by (auto simp: p)
  then show ?thesis using cycle_orders y p by (simp add: cycle_layers)
qed

lemma scan_down_ok:
  "i < int (length ns) \<Longrightarrow>
   \<exists>r. scan_down ns w i = Inr r \<and> (\<forall>j. r = Some j \<longrightarrow> 0 \<le> j \<and> j \<le> i)"
proof (induction ns w i rule: scan_down.induct)
  case (1 ns wanted i)
  show ?case
  proof (cases "i \<ge> 0")
    case False
    then show ?thesis by (subst scan_down.simps) simp
  next
    case True
    with 1(2) have ix: "index_nodes ns i = Inr (ns ! nat i)" by (simp add: index_nodes_def)
    show ?thesis
    proof (cases "layer_n (ns ! nat i) = wanted")
      case True
      with \<open>i \<ge> 0\<close> ix show ?thesis by (subst scan_down.simps) simp
    next
      case False
      from 1(2) have "i - 1 < int (length ns)" by simp
      from 1(1)[OF True ix False this] obtain r where
        "scan_down ns wanted (i - 1) = Inr r" "\<forall>j. r = Some j \<longrightarrow> 0 \<le> j \<and> j \<le> i - 1" by blast
      with True ix False show ?thesis by (subst scan_down.simps) auto
    qed
  qed
qed

lemma scan_up_ok:
  "0 \<le> i \<Longrightarrow>
   \<exists>r. scan_up ns w i = Inr r \<and> (\<forall>j. r = Some j \<longrightarrow> i \<le> j \<and> j < int (length ns))"
proof (induction ns w i rule: scan_up.induct)
  case (1 ns wanted i)
  show ?case
  proof (cases "i < int (length ns)")
    case False
    then show ?thesis by (subst scan_up.simps) simp
  next
    case True
    with 1(2) have ix: "index_nodes ns i = Inr (ns ! nat i)" by (simp add: index_nodes_def)
    show ?thesis
    proof (cases "layer_n (ns ! nat i) = wanted")
      case True
      with \<open>i < int (length ns)\<close> ix show ?thesis by (subst scan_up.simps) simp
    next
      case False
      from 1(2) have "0 \<le> i + 1" by simp
      from 1(1)[OF True ix False this] obtain r where
        "scan_up ns wanted (i + 1) = Inr r" "\<forall>j. r = Some j \<longrightarrow> i + 1 \<le> j \<and> j < int (length ns)"
        by blast
      with True ix False show ?thesis by (subst scan_up.simps) auto
    qed
  qed
qed

lemma select_ok:
  "selection_ok g \<Longrightarrow> 0 \<le> j \<Longrightarrow> j < int (length (nodes g)) \<Longrightarrow> selection_ok (g\<lparr>selectedNode := j\<rparr>)"
  by (simp add: selection_ok_def)

lemma MoveUp_ok:
  assumes "selection_ok g"
  shows "\<exists>g'. MoveUp g = Inr g' \<and> selection_ok g'"
proof (cases "nodes g = []")
  case True
  with assms show ?thesis by (simp add: MoveUp_def Let_def)
next
  case False
  with assms have s: "0 \<le> selectedNode g" "selectedNode g < int (length (nodes g))"
    by (simp_all add: selection_ok_def)
  then have ix: "index_nodes (nodes g) (selectedNode g) = Inr (nodes g ! nat (selectedNode g))"
    by (simp add: index_nodes_def)
  let ?cl = "layer_n (nodes g ! nat (selectedNode g))"
  from s have "selectedNode g - 1 < int (length (nodes g))" by simp
  from scan_down_ok[OF this, of ?cl] obtain r1 where
    r1: "scan_down (nodes g) ?cl (selectedNode g - 1) = Inr r1"
    "\<forall>j. r1 = Some j \<longrightarrow> 0 \<le> j \<and> j \<le> selectedNode g - 1" by blast
  have "int (length (nodes g)) - 1 < int (length (nodes g))" by simp
  from scan_down_ok[OF this, of "?cl - 1"] obtain r2 where
    r2: "scan_down (nodes g) (?cl - 1) (int (length (nodes g)) - 1) = Inr r2"
    "\<forall>j. r2 = Some j \<longrightarrow> 0 \<le> j \<and> j \<le> int (length (nodes g)) - 1" by blast
  show ?thesis
  proof (cases r1)
    case (Some j)
    with r1 s have "0 \<le> j" "j < int (length (nodes g))" by auto
    with assms have "selection_ok (g\<lparr>selectedNode := j\<rparr>)" by (simp add: select_ok)
    with False ix r1 Some show ?thesis by (simp add: MoveUp_def Let_def)
  next
    case None
    show ?thesis
    proof (cases r2)
      case (Some j)
      with r2 have "0 \<le> j" "j < int (length (nodes g))" by auto
      with assms have "selection_ok (g\<lparr>selectedNode := j\<rparr>)" by (simp add: select_ok)
      with False ix r1 r2 None Some assms show ?thesis by (simp add: MoveUp_def Let_def)
    next
      case n2: None
      with False ix r1 r2 None assms show ?thesis by (simp add: MoveUp_def Let_def)
    qed
  qed
qed

lemma MoveDown_ok:
  assumes "selection_ok g"
  shows "\<exists>g'. MoveDown g = Inr g' \<and> selection_ok g'"
proof (cases "nodes g = []")
  case True
  with assms show ?thesis by (simp add: MoveDown_def Let_def)
next
  case False
  with assms have s: "0 \<le> selectedNode g" "selectedNode g < int (length (nodes g))"
    by (simp_all add: selection_ok_def)
  then have ix: "index_nodes (nodes g) (selectedNode g) = Inr (nodes g ! nat (selectedNode g))"
    by (simp add: index_nodes_def)
  let ?cl = "layer_n (nodes g ! nat (selectedNode g))"
  from s have "0 \<le> selectedNode g + 1" by simp
  from scan_up_ok[OF this, of "nodes g" ?cl] obtain r1 where
    r1: "scan_up (nodes g) ?cl (selectedNode g + 1) = Inr r1"
    "\<forall>j. r1 = Some j \<longrightarrow> selectedNode g + 1 \<le> j \<and> j < int (length (nodes g))" by blast
  have "(0::int) \<le> 0" by simp
  from scan_up_ok[OF this, of "nodes g" "?cl + 1"] obtain r2 where
    r2: "scan_up (nodes g) (?cl + 1) 0 = Inr r2"
    "\<forall>j. r2 = Some j \<longrightarrow> 0 \<le> j \<and> j < int (length (nodes g))" by blast
  show ?thesis
  proof (cases r1)
    case (Some j)
    with r1 s have "0 \<le> j" "j < int (length (nodes g))" by auto
    with assms have "selection_ok (g\<lparr>selectedNode := j\<rparr>)" by (simp add: select_ok)
    with False ix r1 Some show ?thesis by (simp add: MoveDown_def Let_def)
  next
    case None
    show ?thesis
    proof (cases r2)
      case (Some j)
      with r2 have "0 \<le> j" "j < int (length (nodes g))" by auto
      with assms have "selection_ok (g\<lparr>selectedNode := j\<rparr>)" by (simp add: select_ok)
      with False ix r1 r2 None Some assms show ?thesis by (simp add: MoveDown_def Let_def)
    next
      case n2: None
      with False ix r1 r2 None assms show ?thesis by (simp add: MoveDown_def Let_def)
    qed
  qed
qed

lemma MoveLeft_ok: "selection_ok g \<Longrightarrow> selection_ok (MoveLeft g)"
  by (auto simp: selection_ok_def MoveLeft_def)

lemma MoveRight_ok: "selection_ok g \<Longrightarrow> selection_ok (MoveRight g)"
  by (auto simp: selection_ok_def MoveRight_def)

lemma scroll_ok:
  "selection_ok g \<Longrightarrow> selection_ok (PageUp g)"
  "selection_ok g \<Longrightarrow> selection_ok (PageDown g)"
  "selection_ok g \<Longrightarrow> selection_ok (ScrollLeft g)"
  "selection_ok g \<Longrightarrow> selection_ok (ScrollRight g)"
  by (auto simp: selection_ok_def PageUp_def PageDown_def ScrollLeft_def ScrollRight_def Let_def)

lemma reachable_selection_ok: "reachable g \<Longrightarrow> selection_ok g"
proof (induction rule: reachable.induct)
  case (reach_new rt iss ins g)
  then show ?case unfolding NewGraphModel_def by (rule buildGraph_selection) simp
next
  case (reach_set g rt iss ins g')
  from reach_set(2) show ?case unfolding SetIssues_def
    by (rule buildGraph_selection) (use reach_set(3) in \<open>simp add: selection_ok_def\<close>)
next
  case (reach_up g g')
  with MoveUp_ok[of g] show ?case by auto
next
  case (reach_down g g')
  with MoveDown_ok[of g] show ?case by auto
qed (simp_all add: MoveLeft_ok MoveRight_ok scroll_ok)

lemma SelectedIssue_ok:
  assumes "selection_ok g"
  shows "\<exists>r. SelectedIssue g = Inr r \<and> (r = None \<longleftrightarrow> nodes g = [])"
proof (cases "nodes g = []")
  case True
  then show ?thesis by (simp add: SelectedIssue_def)
next
  case False
  with assms have s: "0 \<le> selectedNode g" "selectedNode g < int (length (nodes g))"
    by (simp_all add: selection_ok_def)
  then have ix: "index_nodes (nodes g) (selectedNode g) = Inr (nodes g ! nat (selectedNode g))"
    by (simp add: index_nodes_def)
  from s have "nodes g ! nat (selectedNode g) \<in> set (nodes g)" by simp
  with assms have "issueMap g (id_n (nodes g ! nat (selectedNode g))) \<noteq> None"
    by (simp add: selection_ok_def)
  with False s ix show ?thesis by (simp add: SelectedIssue_def)
qed

text \<open>
  Claim C10. In every graph model that the constructor, \<open>SetIssues\<close> and the
  navigation and scroll operations produce, \<open>selectedNode\<close> is not negative and, when
  there are nodes, less than their number; \<open>SelectedIssue\<close> does not panic and returns
  \<open>nil\<close> exactly when there are no nodes; \<open>MoveUp\<close> and \<open>MoveDown\<close> do not panic.
\<close>

theorem selection_in_bounds:
  assumes "reachable g"
  shows "0 \<le> selectedNode g
    \<and> (nodes g \<noteq> [] \<longrightarrow> selectedNode g < int (length (nodes g)))
    \<and> (\<exists>r. SelectedIssue g = Inr r \<and> (r = None \<longleftrightarrow> nodes g = []))
    \<and> (\<exists>g'. MoveUp g = Inr g') \<and> (\<exists>g'. MoveDown g = Inr g')"
proof -
  from assms have s: "selection_ok g" by (rule reachable_selection_ok)
  with SelectedIssue_ok[OF s] MoveUp_ok[OF s] MoveDown_ok[OF s] show ?thesis
    by (auto simp: selection_ok_def)
qed

subsection \<open>Construction returns\<close>

lemma buildGraph_total:
  assumes "issueMap g = issueMap_of (issues g)" and "set (range_allIDs rt) \<subseteq> issue_ids (issues g)"
  shows "\<exists>g'. buildGraph rt g = Some g'"
proof (cases "issues g = []")
  case True
  then show ?thesis by (simp add: buildGraph_empty)
next
  case False
  from compute_layers_total[OF assms(2)] assms(1) obtain L where
    L: "compute_layers rt (issues g) (issueMap g) = Some L" by auto
  obtain ns nim rows where p: "placement rt (issueMap g) L = (ns, nim, rows)"
    by (metis prod_cases3)
  from buildGraph_Some[OF False L p] show ?thesis by simp
qed

lemma NewGraphModel_total:
  assumes "iteration_orders rt iss"
  shows "\<exists>g. NewGraphModel rt iss ins = Some g"
  unfolding NewGraphModel_def
  by (rule buildGraph_total) (use assms in \<open>simp_all add: issueMap_of_def iteration_orders_def\<close>)

lemma SetIssues_total:
  assumes "iteration_orders rt iss"
  shows "\<exists>g'. SetIssues rt iss ins g = Some g'"
  unfolding SetIssues_def
  by (rule buildGraph_total) (use assms in \<open>simp_all add: issueMap_of_def iteration_orders_def\<close>)

subsection \<open>Dependencies that construction does not look at\<close>

lemma parents_loop_im:
  "(\<forall>p. (im' p = None) = (im p = None)) \<Longrightarrow>
   parents_loop call im' ps mp st = parents_loop call im ps mp st"
  by (induction ps arbitrary: mp st) (auto split: option.splits)

lemma parents_loop_existing:
  "parents_loop call im (existing im ps) mp st = parents_loop call im ps mp st"
  by (induction ps arbitrary: mp st) (auto simp: existing_def split: option.splits)

lemma computeLayer_cong:
  assumes "\<forall>p. (im' p = None) = (im p = None)"
    and "\<forall>k. existing im (d' k) = existing im (d k)"
  shows "computeLayer n d' im' i st = computeLayer n d im i st"
proof (induction n arbitrary: i st)
  case 0
  then show ?case by simp
next
  case (Suc n)
  have c: "computeLayer n d' im' = computeLayer n d im" by (intro ext) (rule Suc)
  have pl: "parents_loop (computeLayer n d im) im' (d' i) mp s
      = parents_loop (computeLayer n d im) im (d i) mp s" for mp s
  proof -
    have "parents_loop (computeLayer n d im) im' (d' i) mp s
        = parents_loop (computeLayer n d im) im (d' i) mp s"
      using assms(1) by (rule parents_loop_im)
    also have "\<dots> = parents_loop (computeLayer n d im) im (existing im (d' i)) mp s"
      by (rule parents_loop_existing[symmetric])
    also have "\<dots> = parents_loop (computeLayer n d im) im (existing im (d i)) mp s"
      using assms(2) by simp
    also have "\<dots> = parents_loop (computeLayer n d im) im (d i) mp s"
      by (rule parents_loop_existing)
    finally show ?thesis .
  qed
  show ?case by (auto simp: c pl split: option.splits)
qed

lemma compute_all_cong:
  assumes "\<forall>p. (im' p = None) = (im p = None)"
    and "\<forall>k. existing im (d' k) = existing im (d k)"
  shows "compute_all n d' im' order ls = compute_all n d im order ls"
  by (induction order arbitrary: ls) (auto simp: computeLayer_cong[OF assms] split: option.splits)

lemma fill_issueMap_map:
  assumes "\<And>issue. ID_issue (f issue) = ID_issue issue"
  shows "fill_issueMap (map f iss) (map_option f \<circ> m) = map_option f \<circ> fill_issueMap iss m"
proof (induction iss arbitrary: m)
  case Nil
  then show ?case by simp
next
  case (Cons a iss)
  have h: "(map_option f \<circ> m)(ID_issue a \<mapsto> f a) = map_option f \<circ> (m(ID_issue a \<mapsto> a))"
    by (auto simp: fun_eq_iff)
  have "fill_issueMap (map f (a # iss)) (map_option f \<circ> m)
      = fill_issueMap (map f iss) ((map_option f \<circ> m)(ID_issue a \<mapsto> f a))"
    by (simp add: assms)
  also have "\<dots> = fill_issueMap (map f iss) (map_option f \<circ> (m(ID_issue a \<mapsto> a)))"
    by (simp only: h)
  also have "\<dots> = map_option f \<circ> fill_issueMap iss (m(ID_issue a \<mapsto> a))"
    by (rule Cons)
  also have "\<dots> = map_option f \<circ> fill_issueMap (a # iss) m"
    by simp
  finally show ?case .
qed

lemma issueMap_of_keep:
  "issueMap_of (map (keep_deps P) iss) = map_option (keep_deps P) \<circ> issueMap_of iss"
proof -
  have "fill_issueMap (map (keep_deps P) iss) (map_option (keep_deps P) \<circ> Map.empty)
      = map_option (keep_deps P) \<circ> fill_issueMap iss Map.empty"
    by (rule fill_issueMap_map) (simp add: keep_deps_def)
  then show ?thesis by (simp add: issueMap_of_def)
qed

lemma issue_ids_keep: "issue_ids (map (keep_deps P) iss) = issue_ids iss"
  by (auto simp: issue_ids_def keep_deps_def image_iff)

lemma existing_concat: "existing im (concat xss) = concat (map (existing im) xss)"
  unfolding existing_def by (rule filter_concat)

lemma existing_keep:
  assumes "\<forall>dep. relevant iss dep \<longrightarrow> P dep"
  shows "existing (issueMap_of iss) (dependsOn_of (map (keep_deps P) iss) k)
       = existing (issueMap_of iss) (dependsOn_of iss k)"
proof -
  have one: "existing (issueMap_of iss) (map DependsOnID (filter (\<lambda>x. P x \<and> structural x) deps))
      = existing (issueMap_of iss) (map DependsOnID (filter structural deps))" for deps
  proof (induction deps)
    case Nil
    then show ?case by simp
  next
    case (Cons dep deps)
    then show ?case using assms issueMap_of_None[of iss "DependsOnID dep"]
      by (auto simp: existing_def relevant_def)
  qed
  have "filter (\<lambda>issue. ID_issue issue = k) (map (keep_deps P) iss)
      = map (keep_deps P) (filter (\<lambda>issue. ID_issue issue = k) iss)"
    by (induction iss) (simp_all add: keep_deps_def)
  then show ?thesis
    by (simp add: dependsOn_of_eq existing_concat comp_def one) (simp add: keep_deps_def one)
qed

lemma layers_of_keep:
  assumes "\<forall>dep. relevant iss dep \<longrightarrow> P dep"
  shows "layers_of rt (map (keep_deps P) iss) = layers_of rt iss"
proof -
  have n: "\<forall>p. (issueMap_of (map (keep_deps P) iss) p = None) = (issueMap_of iss p = None)"
    by (simp add: issueMap_of_keep)
  have e: "\<forall>k. existing (issueMap_of iss) (dependsOn_of (map (keep_deps P) iss) k)
       = existing (issueMap_of iss) (dependsOn_of iss k)"
    using existing_keep[OF assms] by simp
  show ?thesis
    using compute_all_cong[OF n e]
    by (simp add: layers_of_def compute_layers_def dependsOn_of_def[symmetric])
qed

lemma place_nodes_keep:
  assumes "\<forall>x. im' x = map_option (keep_deps P) (im x)"
  shows "place_nodes trunc im' l ids i st = place_nodes trunc im l ids i st"
proof (induction ids arbitrary: i st)
  case Nil
  then show ?case by (cases st) simp
next
  case (Cons a ids)
  obtain ns nim row where st: "st = (ns, nim, row)" by (metis prod_cases3)
  show ?case
  proof (cases "im a")
    case None
    moreover from None assms have "im' a = None" by simp
    ultimately show ?thesis by (simp add: st Cons)
  next
    case (Some issue)
    moreover from Some assms have "im' a = Some (keep_deps P issue)" by simp
    ultimately show ?thesis by (simp add: st Cons Let_def keep_deps_def)
  qed
qed

lemma place_layers_keep:
  assumes "\<forall>x. im' x = map_option (keep_deps P) (im x)"
  shows "place_layers trunc im' groups ls st = place_layers trunc im groups ls st"
proof (induction ls arbitrary: st)
  case Nil
  then show ?case by (cases st) simp
next
  case (Cons l ls)
  obtain ns nim rows where st: "st = (ns, nim, rows)" by (metis prod_cases3)
  show ?case by (simp add: st Cons place_nodes_keep[OF assms] Let_def)
qed

lemma placement_keep:
  assumes "\<forall>x. im' x = map_option (keep_deps P) (im x)"
  shows "placement rt im' L = placement rt im L"
  by (simp add: placement_def place_layers_keep[OF assms])

lemma place_nodes_dom:
  "place_nodes trunc im l ids i (ns, nim, row) = (ns', nim', row') \<Longrightarrow>
   dom nim' = dom nim \<union> {x \<in> set ids. im x \<noteq> None}"
proof (induction ids arbitrary: i ns nim row)
  case Nil
  then show ?case by simp
next
  case (Cons a ids)
  show ?case
  proof (cases "im a")
    case None
    with Cons.prems have "place_nodes trunc im l ids (Suc i) (ns, nim, row) = (ns', nim', row')"
      by simp
    from Cons.IH[OF this] None show ?thesis by auto
  next
    case (Some issue)
    with Cons.prems obtain node where
      "place_nodes trunc im l ids (Suc i)
         (ns @ [node], nim(a \<mapsto> int (length ns)), row[i := int (length ns)]) = (ns', nim', row')"
      by (simp add: Let_def)
    from Cons.IH[OF this] Some show ?thesis by (auto split: if_splits)
  qed
qed

lemma place_nodes_range:
  "place_nodes trunc im l ids i (ns, nim, row) = (ns', nim', row') \<Longrightarrow>
   \<forall>x k. nim x = Some k \<longrightarrow> 0 \<le> k \<and> k < int (length ns) \<Longrightarrow>
   length ns \<le> length ns' \<and> (\<forall>x k. nim' x = Some k \<longrightarrow> 0 \<le> k \<and> k < int (length ns'))"
proof (induction ids arbitrary: i ns nim row)
  case Nil
  then show ?case by simp
next
  case (Cons a ids)
  show ?case
  proof (cases "im a")
    case None
    with Cons.prems(1) have "place_nodes trunc im l ids (Suc i) (ns, nim, row) = (ns', nim', row')"
      by simp
    from Cons.IH[OF this Cons.prems(2)] show ?thesis .
  next
    case (Some issue)
    with Cons.prems(1) obtain node where
      p: "place_nodes trunc im l ids (Suc i)
         (ns @ [node], nim(a \<mapsto> int (length ns)), row[i := int (length ns)]) = (ns', nim', row')"
      by (simp add: Let_def)
    have "\<forall>x k. (nim(a \<mapsto> int (length ns))) x = Some k \<longrightarrow> 0 \<le> k \<and> k < int (length (ns @ [node]))"
      using Cons.prems(2) by (auto split: if_splits) fastforce+
    from Cons.IH[OF p this] show ?thesis by simp
  qed
qed

lemma place_layers_dom:
  "place_layers trunc im groups ls (ns, nim, rows) = (ns', nim', rows') \<Longrightarrow>
   dom nim' = dom nim \<union> {x. \<exists>l \<in> set ls. x \<in> set (groups l) \<and> im x \<noteq> None}"
proof (induction ls arbitrary: ns nim rows)
  case Nil
  then show ?case by simp
next
  case (Cons l ls)
  obtain ns1 nim1 row where
    p: "place_nodes trunc im l (groups l) 0 (ns, nim, replicate (length (groups l)) 0) = (ns1, nim1, row)"
    by (metis prod_cases3)
  with Cons.prems have
    r: "place_layers trunc im groups ls (ns1, nim1, rows[nat l := row]) = (ns', nim', rows')"
    by (simp add: Let_def)
  from place_nodes_dom[OF p] Cons.IH[OF r] show ?case by auto
qed

lemma place_layers_range:
  "place_layers trunc im groups ls (ns, nim, rows) = (ns', nim', rows') \<Longrightarrow>
   \<forall>x k. nim x = Some k \<longrightarrow> 0 \<le> k \<and> k < int (length ns) \<Longrightarrow>
   \<forall>x k. nim' x = Some k \<longrightarrow> 0 \<le> k \<and> k < int (length ns')"
proof (induction ls arbitrary: ns nim rows)
  case Nil
  then show ?case by simp
next
  case (Cons l ls)
  obtain ns1 nim1 row where
    p: "place_nodes trunc im l (groups l) 0 (ns, nim, replicate (length (groups l)) 0) = (ns1, nim1, row)"
    by (metis prod_cases3)
  with Cons.prems(1) have
    r: "place_layers trunc im groups ls (ns1, nim1, rows[nat l := row]) = (ns', nim', rows')"
    by (simp add: Let_def)
  from place_nodes_range[OF p Cons.prems(2)] have
    "\<forall>x k. nim1 x = Some k \<longrightarrow> 0 \<le> k \<and> k < int (length ns1)" by simp
  from Cons.IH[OF r this] show ?case .
qed

lemma group_layers_eq:
  "group_layers order L (g0, m0) = (groups, maxL) \<Longrightarrow>
   (\<forall>l. groups l = g0 l @ filter (\<lambda>x. L x = Some l) order) \<and> m0 \<le> maxL
   \<and> (\<forall>x \<in> set order. \<forall>l. L x = Some l \<longrightarrow> l \<le> maxL)"
proof (induction order arbitrary: g0 m0)
  case Nil
  then show ?case by simp
next
  case (Cons a order)
  show ?case
  proof (cases "L a")
    case None
    with Cons.prems have "group_layers order L (g0, m0) = (groups, maxL)" by simp
    from Cons.IH[OF this] None show ?thesis by simp
  next
    case (Some la)
    with Cons.prems have
      "group_layers order L (g0(la := g0 la @ [a]), if la > m0 then la else m0) = (groups, maxL)"
      by simp
    from Cons.IH[OF this] Some show ?thesis by (auto split: if_splits)
  qed
qed

lemma placement_dom:
  assumes "placement rt im L = (ns, nim, rows)"
  shows "dom nim \<subseteq> dom im"
    and "\<forall>x k. nim x = Some k \<longrightarrow> 0 \<le> k \<and> k < int (length ns)"
    and "\<forall>x \<in> set (range_layers rt). im x \<noteq> None \<longrightarrow> (\<exists>l. L x = Some l \<and> 0 \<le> l) \<longrightarrow> x \<in> dom nim"
proof -
  obtain groups maxL where gl: "group_layers (range_layers rt) L (\<lambda>k. [], 0) = (groups, maxL)"
    by (cases "group_layers (range_layers rt) L (\<lambda>k. [], 0)")
  with assms have pl: "place_layers (truncateRunesHelper rt) im
      (\<lambda>layer. sort_Strings (groups layer)) [0..maxL]
      ([], Map.empty, replicate (nat (maxL + 1)) []) = (ns, nim, rows)"
    by (simp add: placement_def)
  from place_layers_dom[OF pl] have d:
    "dom nim = {x. \<exists>l \<in> set [0..maxL]. x \<in> set (sort_Strings (groups l)) \<and> im x \<noteq> None}"
    by simp
  then show "dom nim \<subseteq> dom im" by auto
  from place_layers_range[OF pl] show "\<forall>x k. nim x = Some k \<longrightarrow> 0 \<le> k \<and> k < int (length ns)"
    by simp
  from group_layers_eq[OF gl] have
    g: "\<forall>l. groups l = filter (\<lambda>x. L x = Some l) (range_layers rt)"
    and m: "\<forall>x \<in> set (range_layers rt). \<forall>l. L x = Some l \<longrightarrow> l \<le> maxL"
    by simp_all
  show "\<forall>x \<in> set (range_layers rt). im x \<noteq> None \<longrightarrow> (\<exists>l. L x = Some l \<and> 0 \<le> l) \<longrightarrow> x \<in> dom nim"
  proof (intro ballI impI)
    fix x assume x: "x \<in> set (range_layers rt)" "im x \<noteq> None" "\<exists>l. L x = Some l \<and> 0 \<le> l"
    then obtain l where l: "L x = Some l" "0 \<le> l" by blast
    with m x(1) have "l \<in> set [0..maxL]" by simp
    moreover have "x \<in> set (sort_Strings (groups l))"
      using g l x(1) by (simp add: sort_Strings_def set_sort_Slice)
    ultimately show "x \<in> dom nim" using x(2) unfolding d by blast
  qed
qed

lemma dep_edges_eq:
  "dep_edges nim idx deps es = es @ map (edge_of nim idx) (filter (drawn nim) deps)"
  by (induction deps arbitrary: es)
     (auto simp: drawn_def structural_def edge_of_def split: option.splits)

lemma issue_edges_eq:
  "issue_edges nim iss es =
     es @ concat (map (\<lambda>issue. case nim (ID_issue issue) of
                                 None \<Rightarrow> []
                               | Some idx \<Rightarrow> map (edge_of nim idx) (filter (drawn nim) (Dependencies issue)))
                      iss)"
  by (induction iss arbitrary: es) (auto simp: dep_edges_eq split: option.splits)

lemma issue_edges_keep:
  assumes "\<forall>dep. drawn nim dep \<longrightarrow> P dep"
  shows "issue_edges nim (map (keep_deps P) iss) es = issue_edges nim iss es"
proof -
  have "filter (drawn nim) (filter P deps) = filter (drawn nim) deps" for deps
    using assms by (induction deps) auto
  then show ?thesis
    by (simp add: issue_edges_eq comp_def keep_deps_def cong: option.case_cong)
qed

lemma NewGraphModel_Nil: "view (the (NewGraphModel rt [] ins)) = ([], [], [], 0)"
  by (simp add: NewGraphModel_def buildGraph_empty view_def)

lemma NewGraphModel_None:
  "iss \<noteq> [] \<Longrightarrow> layers_of rt iss = None \<Longrightarrow> NewGraphModel rt iss ins = None"
  unfolding NewGraphModel_def
  by (rule buildGraph_None) (simp_all add: layers_of_def issueMap_of_def)

lemma NewGraphModel_Some:
  assumes "iss \<noteq> []" and "layers_of rt iss = Some L"
    and "placement rt (issueMap_of iss) L = (ns, nim, rows)"
  shows "NewGraphModel rt iss ins =
     Some \<lparr>issues = iss, issueMap = issueMap_of iss, insights = ins, selectedNode = 0,
           scrollX = 0, scrollY = 0, nodes = ns, edges = issue_edges nim iss [], layers = rows\<rparr>"
proof -
  let ?g = "\<lparr>issues = iss, issueMap = fill_issueMap iss Map.empty, insights = ins,
        selectedNode = 0, scrollX = 0, scrollY = 0, nodes = [], edges = [], layers = []\<rparr>"
  have 1: "issues ?g \<noteq> []" using assms(1) by simp
  have 2: "compute_layers rt (issues ?g) (issueMap ?g) = Some L"
    using assms(2) by (simp add: layers_of_def issueMap_of_def)
  have 3: "placement rt (issueMap ?g) L = (ns, nim, rows)"
    using assms(3) by (simp add: issueMap_of_def)
  show ?thesis
    unfolding NewGraphModel_def buildGraph_Some[OF 1 2 3] by (simp add: issueMap_of_def)
qed

lemma NewGraphModel_keep:
  assumes "\<forall>dep. relevant iss dep \<longrightarrow> P dep"
  shows "map_option view (NewGraphModel rt (map (keep_deps P) iss) ins)
       = map_option view (NewGraphModel rt iss ins)"
proof (cases "iss = []")
  case True
  then show ?thesis by simp
next
  case False
  then have ne: "map (keep_deps P) iss \<noteq> []" by simp
  have l: "layers_of rt (map (keep_deps P) iss) = layers_of rt iss"
    using assms by (rule layers_of_keep)
  show ?thesis
  proof (cases "layers_of rt iss")
    case None
    with l False ne show ?thesis by (simp add: NewGraphModel_None)
  next
    case (Some L)
    obtain ns nim rows where p: "placement rt (issueMap_of iss) L = (ns, nim, rows)"
      by (metis prod_cases3)
    have "\<forall>x. issueMap_of (map (keep_deps P) iss) x = map_option (keep_deps P) (issueMap_of iss x)"
      by (simp add: issueMap_of_keep)
    then have "placement rt (issueMap_of (map (keep_deps P) iss)) L = placement rt (issueMap_of iss) L"
      by (rule placement_keep)
    with p have p': "placement rt (issueMap_of (map (keep_deps P) iss)) L = (ns, nim, rows)"
      by simp
    have "\<forall>dep. drawn nim dep \<longrightarrow> P dep"
    proof (intro allI impI)
      fix dep assume d: "drawn nim dep"
      then have "DependsOnID dep \<in> dom nim" by (auto simp: drawn_def)
      with placement_dom(1)[OF p] have "DependsOnID dep \<in> issue_ids iss"
        by (auto simp: dom_issueMap_of)
      with d assms show "P dep" by (simp add: relevant_def drawn_def)
    qed
    then have e: "issue_edges nim (map (keep_deps P) iss) [] = issue_edges nim iss []"
      by (rule issue_edges_keep)
    from Some l have l': "layers_of rt (map (keep_deps P) iss) = Some L" by simp
    show ?thesis
      by (simp add: NewGraphModel_Some[OF False Some p] NewGraphModel_Some[OF ne l' p'] view_def e)
  qed
qed

lemma edges_structural:
  assumes "NewGraphModel rt iss ins = Some g" and "e \<in> set (edges g)"
  shows "depType e = DepBlocks \<or> depType e = DepParentChild"
proof (cases "iss = []")
  case True
  with assms show ?thesis by (auto simp: NewGraphModel_def buildGraph_empty)
next
  case False
  with assms(1) obtain L where L: "layers_of rt iss = Some L"
    by (cases "layers_of rt iss") (auto simp: NewGraphModel_None)
  obtain ns nim rows where p: "placement rt (issueMap_of iss) L = (ns, nim, rows)"
    by (metis prod_cases3)
  from NewGraphModel_Some[OF False L p, of ins] assms(1)
  have "edges g = issue_edges nim iss []" by auto
  with assms(2) show ?thesis
    by (auto simp: issue_edges_eq edge_of_def drawn_def structural_def split: option.splits)
qed

lemma in_concat_map: "e \<in> set (concat (map F xs)) \<Longrightarrow> \<exists>x \<in> set xs. e \<in> set (F x)"
  by auto

lemma edges_in_range:
  assumes "NewGraphModel rt iss ins = Some g" and "e \<in> set (edges g)"
  shows "0 \<le> from_e e \<and> from_e e < int (length (nodes g))
       \<and> 0 \<le> to_e e \<and> to_e e < int (length (nodes g))"
proof (cases "iss = []")
  case True
  with assms show ?thesis by (auto simp: NewGraphModel_def buildGraph_empty)
next
  case False
  with assms(1) obtain L where L: "layers_of rt iss = Some L"
    by (cases "layers_of rt iss") (auto simp: NewGraphModel_None)
  obtain ns nim rows where p: "placement rt (issueMap_of iss) L = (ns, nim, rows)"
    by (metis prod_cases3)
  from NewGraphModel_Some[OF False L p, of ins] assms(1)
  have g: "edges g = issue_edges nim iss []" "nodes g = ns" by auto
  from placement_dom(2)[OF p] have r: "\<And>x k. nim x = Some k \<Longrightarrow> 0 \<le> k \<and> k < int (length ns)"
    by blast
  let ?F = "\<lambda>issue. case nim (ID_issue issue) of None \<Rightarrow> []
            | Some idx \<Rightarrow> map (edge_of nim idx) (filter (drawn nim) (Dependencies issue))"
  from assms(2) have "e \<in> set (concat (map ?F iss))" by (simp add: g issue_edges_eq)
  then have "\<exists>issue \<in> set iss. e \<in> set (?F issue)" by (rule in_concat_map)
  then obtain issue where "issue \<in> set iss" and i: "e \<in> set (?F issue)" by (rule bexE)
  then obtain idx where idx: "nim (ID_issue issue) = Some idx"
    by (cases "nim (ID_issue issue)") auto
  with i obtain dep where "drawn nim dep" "e = edge_of nim idx dep" by auto
  note idx this
  moreover then obtain k where "nim (DependsOnID dep) = Some k" by (auto simp: drawn_def)
  ultimately show ?thesis using r[of "ID_issue issue" idx] r[of "DependsOnID dep" k]
    by (simp add: edge_of_def g)
qed

lemma dependsOn_of_keep:
  assumes "\<forall>dep. structural dep \<longrightarrow> P dep"
  shows "dependsOn_of (map (keep_deps P) iss) = dependsOn_of iss"
proof
  fix k
  have f: "filter (\<lambda>x. P x \<and> structural x) deps = filter structural deps" for deps
    using assms by (induction deps) auto
  have "filter (\<lambda>issue. ID_issue issue = k) (map (keep_deps P) iss)
      = map (keep_deps P) (filter (\<lambda>issue. ID_issue issue = k) iss)"
    by (induction iss) (simp_all add: keep_deps_def)
  then show "dependsOn_of (map (keep_deps P) iss) k = dependsOn_of iss k"
    by (simp add: dependsOn_of_eq comp_def keep_deps_def f)
qed

lemma nim_dom:
  assumes "iteration_orders rt iss" and "layers_of rt iss = Some L"
    and "placement rt (issueMap_of iss) L = (ns, nim, rows)"
  shows "dom nim = issue_ids iss"
proof
  show "dom nim \<subseteq> issue_ids iss"
    using placement_dom(1)[OF assms(3)] by (simp add: dom_issueMap_of)
  show "issue_ids iss \<subseteq> dom nim"
  proof
    fix x assume x: "x \<in> issue_ids iss"
    from layers_of_inv[OF assms(1)] assms(2) have
      m: "memo_ok (dependsOn_of iss) (issueMap_of iss) L" and a: "\<forall>i \<in> issue_ids iss. L i \<noteq> None"
      by simp_all
    from a x obtain l where l: "L x = Some l" by auto
    with m have "entry_ok (dependsOn_of iss) (issueMap_of iss) L x l" by (simp add: memo_ok_def)
    then have "0 \<le> l" by (rule entry_ok_nonneg)
    with l have e: "\<exists>l. L x = Some l \<and> 0 \<le> l" by blast
    have r: "x \<in> set (range_layers rt)" using assms(1) x by (simp add: iteration_orders_def)
    have i: "issueMap_of iss x \<noteq> None" using x issueMap_of_None[of iss x] by blast
    from placement_dom(3)[OF assms(3)] r i e show "x \<in> dom nim" by blast
  qed
qed

text \<open>
  Claim C6. Only dependencies of kind "blocks" or "parent-child" take part in graph
  construction: removing dependencies of any other kind from the input (any filter
  \<open>P\<close> that keeps the structural ones) leaves the adjacency map, the layers and the
  constructed nodes, edges and layer rows unchanged, and every constructed edge has a
  structural kind.
\<close>

theorem non_structural_ignored:
  assumes "\<forall>dep. structural dep \<longrightarrow> P dep"
  shows "dependsOn_of (map (keep_deps P) iss) = dependsOn_of iss
    \<and> layers_of rt (map (keep_deps P) iss) = layers_of rt iss
    \<and> map_option view (NewGraphModel rt (map (keep_deps P) iss) ins)
        = map_option view (NewGraphModel rt iss ins)
    \<and> (\<forall>g e. NewGraphModel rt iss ins = Some g \<and> e \<in> set (edges g) \<longrightarrow>
          depType e = DepBlocks \<or> depType e = DepParentChild)"
proof -
  have r: "\<forall>dep. relevant iss dep \<longrightarrow> P dep" using assms by (simp add: relevant_def)
  show ?thesis
    using dependsOn_of_keep[OF assms] layers_of_keep[OF r] NewGraphModel_keep[OF r]
      edges_structural by blast
qed

text \<open>
  Claim C7. For every possible run construction returns a graph, there is no failing
  branch. Removing from the input every dependency whose target is not the id of an
  issue changes neither the layers nor the constructed nodes, edges and layer rows: such
  a dependency sits in the adjacency list but is skipped when it is traversed, and it
  gives no edge. Both endpoints of every constructed edge are indices of nodes.
\<close>

theorem dangling_dropped:
  assumes "iteration_orders rt iss"
  shows "\<exists>g. NewGraphModel rt iss ins = Some g
     \<and> map_option view (NewGraphModel rt (map (keep_deps (present iss)) iss) ins) = Some (view g)
     \<and> layers_of rt (map (keep_deps (present iss)) iss) = layers_of rt iss
     \<and> (\<forall>e \<in> set (edges g). 0 \<le> from_e e \<and> from_e e < int (length (nodes g))
                            \<and> 0 \<le> to_e e \<and> to_e e < int (length (nodes g)))"
proof -
  from NewGraphModel_total[OF assms] obtain g where g: "NewGraphModel rt iss ins = Some g"
    by blast
  have r: "\<forall>dep. relevant iss dep \<longrightarrow> present iss dep" by (simp add: relevant_def present_def)
  from NewGraphModel_keep[OF r, of rt ins] g
  have "map_option view (NewGraphModel rt (map (keep_deps (present iss)) iss) ins) = Some (view g)"
    by simp
  with g layers_of_keep[OF r, of rt] edges_in_range[OF g] show ?thesis by blast
qed

text \<open>
  Claim C8. Nothing is deduplicated (see the example before this statement). What
  holds: \<open>dependsOn[k]\<close> lists the targets of the structural dependencies of the issues
  with id \<open>k\<close>, in input order, one entry per dependency record; and for every possible
  run the edge list has exactly one edge per structural dependency record whose target
  is an issue.
\<close>

theorem no_deduplication:
  assumes "iteration_orders rt iss"
  shows "dependsOn_of iss k =
       concat (map (\<lambda>issue. map DependsOnID (filter structural (Dependencies issue)))
                   (filter (\<lambda>issue. ID_issue issue = k) iss))
    \<and> (\<exists>g. NewGraphModel rt iss ins = Some g
          \<and> length (edges g)
              = sum_list (map (\<lambda>issue. length (filter (relevant iss) (Dependencies issue))) iss))"
proof (cases "iss = []")
  case True
  then show ?thesis by (simp add: dependsOn_of_eq NewGraphModel_def buildGraph_empty)
next
  case False
  from layers_of_inv[OF assms] obtain L where L: "layers_of rt iss = Some L" by blast
  obtain ns nim rows where p: "placement rt (issueMap_of iss) L = (ns, nim, rows)"
    by (metis prod_cases3)
  have d: "dom nim = issue_ids iss" using assms L p by (rule nim_dom)
  have dr: "drawn nim = relevant iss"
    using d by (auto simp: fun_eq_iff drawn_def relevant_def dom_def)
  have one: "length (case nim (ID_issue issue) of None \<Rightarrow> []
          | Some idx \<Rightarrow> map (edge_of nim idx) (filter (drawn nim) (Dependencies issue)))
      = length (filter (relevant iss) (Dependencies issue))" if "issue \<in> set iss" for issue
  proof -
    from that d have "ID_issue issue \<in> dom nim" by (simp add: issue_ids_def)
    then show ?thesis by (auto simp: dr)
  qed
  have m: "map (\<lambda>issue. length (case nim (ID_issue issue) of None \<Rightarrow> []
          | Some idx \<Rightarrow> map (edge_of nim idx) (filter (drawn nim) (Dependencies issue)))) iss
      = map (\<lambda>issue. length (filter (relevant iss) (Dependencies issue))) iss"
    by (rule map_cong[OF refl]) (rule one)
  have "length (issue_edges nim iss [])
      = sum_list (map (\<lambda>issue. length (case nim (ID_issue issue) of None \<Rightarrow> []
          | Some idx \<Rightarrow> map (edge_of nim idx) (filter (drawn nim) (Dependencies issue)))) iss)"
    by (simp add: issue_edges_eq length_concat comp_def)
  also have "\<dots> = sum_list (map (\<lambda>issue. length (filter (relevant iss) (Dependencies issue))) iss)"
    by (simp only: m)
  finally have "length (issue_edges nim iss [])
      = sum_list (map (\<lambda>issue. length (filter (relevant iss) (Dependencies issue))) iss)" .
  then show ?thesis
    by (simp add: dependsOn_of_eq NewGraphModel_Some[OF False L p])
qed

lemma mixed_orders: "iteration_orders mixed_rt mixed_issues"
  by (auto simp: iteration_orders_def issue_ids_def mixed_rt_def mixed_issues_def mk_issue_def)

lemma mixed_edges: "edge_list (NewGraphModel mixed_rt mixed_issues None) = Some [(0, 1, ''blocks'')]"
  by code_simp

lemma mixed_structural:
  "map (keep_deps structural) mixed_issues
     = [mk_issue ''A'' [(''Z'', ''blocks'')], mk_issue ''B'' [(''A'', ''blocks'')]]"
  by (simp add: mixed_issues_def mk_issue_def keep_deps_def structural_def DepBlocks_def
      DepParentChild_def)

lemma mixed_present:
  "map (keep_deps (present mixed_issues)) mixed_issues
     = [mk_issue ''A'' [(''B'', ''relates-to'')], mk_issue ''B'' [(''A'', ''blocks'')]]"
  by (simp add: mixed_issues_def mk_issue_def keep_deps_def present_def issue_ids_def)

theorem non_structural_ignored_witness:
  "map (keep_deps structural) mixed_issues
     = [mk_issue ''A'' [(''Z'', ''blocks'')], mk_issue ''B'' [(''A'', ''blocks'')]]
   \<and> dependsOn_of [mk_issue ''A'' [(''Z'', ''blocks'')], mk_issue ''B'' [(''A'', ''blocks'')]]
       = dependsOn_of mixed_issues
   \<and> map_option view (NewGraphModel mixed_rt
         [mk_issue ''A'' [(''Z'', ''blocks'')], mk_issue ''B'' [(''A'', ''blocks'')]] None)
       = map_option view (NewGraphModel mixed_rt mixed_issues None)
   \<and> edge_list (NewGraphModel mixed_rt mixed_issues None) = Some [(0, 1, ''blocks'')]"
  using non_structural_ignored [of structural mixed_issues mixed_rt None] mixed_edges
  by (simp add: mixed_structural)

theorem dangling_dropped_witness:
  "iteration_orders mixed_rt mixed_issues
   \<and> map (keep_deps (present mixed_issues)) mixed_issues
       = [mk_issue ''A'' [(''B'', ''relates-to'')], mk_issue ''B'' [(''A'', ''blocks'')]]
   \<and> NewGraphModel mixed_rt mixed_issues None \<noteq> None
   \<and> map_option view (NewGraphModel mixed_rt
         [mk_issue ''A'' [(''B'', ''relates-to'')], mk_issue ''B'' [(''A'', ''blocks'')]] None)
       = map_option view (NewGraphModel mixed_rt mixed_issues None)
   \<and> edge_list (NewGraphModel mixed_rt mixed_issues None) = Some [(0, 1, ''blocks'')]"
  using dangling_dropped [OF mixed_orders, of None] mixed_orders mixed_edges
  by (auto simp: mixed_present)

lemma dup_orders: "iteration_orders dup_rt dup_issues"
  by (auto simp: iteration_orders_def issue_ids_def dup_rt_def dup_issues_def mk_issue_def)

lemma dup_edges:
  "edge_list (NewGraphModel dup_rt dup_issues None) = Some [(0, 1, ''blocks''), (0, 1, ''blocks'')]"
  by code_simp

lemma dup_dependsOn: "dependsOn_of dup_issues ''A'' = [''B'', ''B'']"
  by (simp add: dependsOn_of_eq dup_issues_def mk_issue_def structural_def DepBlocks_def)

text \<open>
  An issue with two identical structural dependencies: its adjacency list holds the
  prerequisite twice and two equal edges are constructed.
\<close>

theorem duplicates_kept_counterexample:
  "dependsOn_of dup_issues ''A'' = [''B'', ''B'']
   \<and> \<not> distinct (dependsOn_of dup_issues ''A'')
   \<and> edge_list (NewGraphModel dup_rt dup_issues None) = Some [(0, 1, ''blocks''), (0, 1, ''blocks'')]
   \<and> \<not> distinct (the (edge_list (NewGraphModel dup_rt dup_issues None)))"
  by (simp add: dup_dependsOn dup_edges)

theorem no_deduplication_witness:
  "iteration_orders dup_rt dup_issues
   \<and> dependsOn_of dup_issues ''A'' = [''B'', ''B'']
   \<and> (\<exists>g. NewGraphModel dup_rt dup_issues None = Some g \<and> length (edges g) = 2)"
proof -
  have "sum_list (map (\<lambda>issue. length (filter (relevant dup_issues) (Dependencies issue))) dup_issues) = 2"
    by (simp add: dup_issues_def mk_issue_def relevant_def structural_def issue_ids_def DepBlocks_def)
  with no_deduplication [OF dup_orders, of "''A''" None] dup_orders show ?thesis
    by (auto simp: dup_dependsOn)
qed

lemma chain_graph:
  "map_option (\<lambda>g. (map (\<lambda>n. (id_n n, layer_n n)) (nodes g), selectedNode g))
     (NewGraphModel chain_rt chain_issues None)
   = Some ([(''A'', 0), (''B'', 1), (''C'', 2), (''D'', 3)], 0)"
  by code_simp

lemma chain_down:
  "map_sum id selectedNode (MoveDown (the (NewGraphModel chain_rt chain_issues None))) = Inr 1"
  by code_simp

theorem selection_in_bounds_witness:
  "reachable (the (NewGraphModel chain_rt chain_issues None))
   \<and> length (nodes (the (NewGraphModel chain_rt chain_issues None))) = 4
   \<and> selectedNode (the (NewGraphModel chain_rt chain_issues None)) = 0
   \<and> (\<exists>r. SelectedIssue (the (NewGraphModel chain_rt chain_issues None)) = Inr r \<and> r \<noteq> None)
   \<and> map_sum id selectedNode (MoveDown (the (NewGraphModel chain_rt chain_issues None))) = Inr 1"
proof -
  from NewGraphModel_total[OF chain_orders, of None] obtain g where
    g: "NewGraphModel chain_rt chain_issues None = Some g" by blast
  then have r: "reachable g" by (rule reach_new)
  from chain_graph g have n: "length (nodes g) = 4" "selectedNode g = 0" by auto
  then have "nodes g \<noteq> []" by auto
  with selection_in_bounds [OF r] have "\<exists>r. SelectedIssue g = Inr r \<and> r \<noteq> None" by auto
  with r n chain_down g show ?thesis by simp
qed


end
